theory Spec2Isabelle
  imports Complex_Main
begin

text \<open>
  A model of \<open>main.go\<close> of quickwipe, a tool that overwrites a block device with random
  data, optionally writing only every \<open>skipFactor\<close>-th buffer. The functions
  \<open>allocAlignedBuffer\<close>, \<open>getDeviceSize\<close>, \<open>wipeDevice\<close> and \<open>benchmarkWriteSpeed\<close> are
  translated in full, with the operating system as an explicit environment; of \<open>main\<close>
  only the validation of the arguments is kept.
\<close>

section \<open>Machine arithmetic of the Go source\<close>

text \<open>
  The program is built for a 64-bit target: Go's \<open>int\<close> and \<open>int64\<close> are both 64-bit
  two's-complement integers. A machine integer is modelled as an \<open>int\<close> in the range
  \<open>- 2^63 \<dots> 2^63 - 1\<close>, and every addition, subtraction and multiplication of the source
  is wrapped back into that range, as the Go specification prescribes for signed overflow.
  Integer division and remainder truncate towards zero.
\<close>

definition in64 :: "int \<Rightarrow> bool" where
  "in64 x \<longleftrightarrow> - (2 ^ 63) \<le> x \<and> x < 2 ^ 63"

definition wrap64 :: "int \<Rightarrow> int" where
  "wrap64 x = (x + 2 ^ 63) mod 2 ^ 64 - 2 ^ 63"

definition add64 :: "int \<Rightarrow> int \<Rightarrow> int" where
  "add64 a b = wrap64 (a + b)"

definition sub64 :: "int \<Rightarrow> int \<Rightarrow> int" where
  "sub64 a b = wrap64 (a - b)"

definition mul64 :: "int \<Rightarrow> int \<Rightarrow> int" where
  "mul64 a b = wrap64 (a * b)"

definition go_div :: "int \<Rightarrow> int \<Rightarrow> int" where
  "go_div a b = sgn a * sgn b * (\<bar>a\<bar> div \<bar>b\<bar>)"

definition go_rem :: "int \<Rightarrow> int \<Rightarrow> int" where
  "go_rem a b = a - b * go_div a b"

section \<open>Errors, slices and the aligned buffer\<close>

text \<open>
  Every error return and every run-time panic of the source is a value of \<open>error\<close>.
  The first group are the errors the functions return, the second group the panics of the
  Go run time (slice bounds out of range, index out of range, \<open>make\<close> with a bad length).
\<close>

datatype error =
    OpenFailed
  | ProbeFailed
  | RandFailed
  | WriteFailed
  | SeekFailed
  | RestorePositionFailed
  | BenchmarkSyncFailed
  | PanicSliceBounds
  | PanicIndex
  | PanicMakeLen

text \<open>
  A byte slice is its base address, its length and its capacity; the bytes themselves are
  random data and are not modelled.
\<close>

record slice =
  base :: int
  len :: int
  cap :: int

text \<open>
  \<open>make([]byte, n)\<close>: panics when \<open>n\<close> is negative or larger than the run time can
  allocate (\<open>limit\<close>); otherwise the backing array starts at address \<open>addr\<close>, which the
  allocator chooses.
\<close>

definition make_bytes :: "int \<Rightarrow> int \<Rightarrow> int \<Rightarrow> error + slice" where
  "make_bytes limit addr n =
     (if n < 0 \<or> limit < n then Inl PanicMakeLen
      else Inr \<lparr>base = addr, len = n, cap = n\<rparr>)"

text \<open>
  The slice expression \<open>s[lo:hi]\<close>. Go checks \<open>0 \<le> lo \<le> hi \<le> cap(s)\<close>: the upper
  bound of a slice of a slice is the capacity, not the length.
\<close>

definition slice_range :: "slice \<Rightarrow> int \<Rightarrow> int \<Rightarrow> error + slice" where
  "slice_range s lo hi =
     (if 0 \<le> lo \<and> lo \<le> hi \<and> hi \<le> cap s
      then Inr \<lparr>base = base s + lo, len = hi - lo, cap = cap s - lo\<rparr>
      else Inl PanicSliceBounds)"

text \<open>
  The rounding both callers apply before allocating:
  \<^verbatim>\<open>alignedBufferSize := (bufferSize / 4096) * 4096; if alignedBufferSize < 4096 { alignedBufferSize = 4096 }\<close>
\<close>

definition alignedBufferSize :: "int \<Rightarrow> int" where
  "alignedBufferSize bufferSize =
     (let a = mul64 (go_div bufferSize 4096) 4096
      in if a < 4096 then 4096 else a)"

text \<open>
  \<open>allocAlignedBuffer(size)\<close>. \<open>addr\<close> is the value of
  \<^verbatim>\<open>int(uintptr(unsafe.Pointer(&buffer[0])))\<close>, the address of the over-allocated array.
  The function's own error result is always nil; it fails only by a panic. (The source's
  parameter \<open>size\<close> is written \<open>sz\<close>: \<open>size\<close> is a constant of HOL.)
\<close>

definition allocAlignedBuffer :: "int \<Rightarrow> int \<Rightarrow> int \<Rightarrow> error + slice" where
  "allocAlignedBuffer limit addr sz =
     (case make_bytes limit addr (add64 sz 4096) of
        Inl err \<Rightarrow> Inl err
      | Inr buffer \<Rightarrow>
          if len buffer \<le> 0 then Inl PanicIndex
          else
            let offset = sub64 4096 (go_rem addr 4096);
                offset = (if offset = 4096 then 0 else offset)
            in slice_range buffer offset (add64 offset sz))"

section \<open>The operating system as seen by the program\<close>

text \<open>
  Everything the program cannot decide itself is a field of the environment: whether each
  open, probe, random fill, write, seek and sync succeeds, the size of the device, the
  address and the largest size the allocator hands out, and the clock. The oracles for the
  calls made inside a loop are indexed by the number of the iteration (from 0); \<open>now e 0\<close>
  is the value of \<open>startTime\<close> and \<open>now e (Suc k)\<close> the clock read in iteration \<open>k\<close>,
  in nanoseconds.
\<close>

record env =
  direct_open_fails :: bool
  sync_open_fails :: bool
  probe_fails :: bool
  device_size :: int
  mem_limit :: int
  heap_addr :: int
  rand_fails :: "nat \<Rightarrow> bool"
  write_fails :: "nat \<Rightarrow> bool"
  seek_fails :: "nat \<Rightarrow> bool"
  getpos_fails :: bool
  restore_fails :: bool
  sync_fails :: bool
  now :: "nat \<Rightarrow> int"

datatype warning = DirectIOUnsupported | FinalSyncFailed

text \<open>
  The two-step open of both passes: direct and synchronised first; when that fails a warning
  is printed and the path is opened synchronised only; when that fails too the error is
  returned.
\<close>

definition open_device :: "env \<Rightarrow> error + warning list" where
  "open_device e =
     (if \<not> direct_open_fails e then Inr []
      else if \<not> sync_open_fails e then Inr [DirectIOUnsupported]
      else Inl OpenFailed)"

definition getDeviceSize :: "env \<Rightarrow> error + int" where
  "getDeviceSize e = (if probe_fails e then Inl ProbeFailed else Inr (device_size e))"

text \<open>
  \<open>file.Write(b)\<close> at offset \<open>p\<close>: \<open>os.File.Write\<close> returns a non-nil error whenever
  fewer than \<open>len(b)\<close> bytes were written, so a call that returns no error has written
  \<open>len(b)\<close> bytes and moved the offset by as much. The result is the count and the new
  offset.
\<close>

definition file_write :: "env \<Rightarrow> nat \<Rightarrow> int \<Rightarrow> slice \<Rightarrow> error + int \<times> int" where
  "file_write e k p b =
     (if write_fails e k then Inl WriteFailed else Inr (len b, p + len b))"

text \<open>
  \<open>file.Seek(d, 1)\<close>, relative to the current offset \<open>p\<close>: besides the failures the
  environment decides, the system call refuses an offset that is negative or not
  representable.
\<close>

definition file_seek_cur :: "env \<Rightarrow> nat \<Rightarrow> int \<Rightarrow> int \<Rightarrow> error + int" where
  "file_seek_cur e k p d =
     (if seek_fails e k \<or> p + d < 0 \<or> 2 ^ 63 \<le> p + d then Inl SeekFailed
      else Inr (p + d))"

section \<open>Floating point and time\<close>

text \<open>
  A \<open>float64\<close> is modelled as an exact rational: rounding is not modelled. The one
  floating-point behaviour kept is division by zero, which in Go does not panic but yields
  an infinity or a NaN. \<open>fdiv\<close> is used wherever the source divides by a value that can be
  zero when the division is reached.
\<close>

datatype fval = Finite rat | PosInf | NegInf | NaN

definition fdiv :: "rat \<Rightarrow> rat \<Rightarrow> fval" where
  "fdiv a b =
     (if b \<noteq> 0 then Finite (a / b)
      else if a = 0 then NaN
      else if 0 < a then PosInf
      else NegInf)"

text \<open>Multiplication of a float by a positive constant.\<close>

fun fscale :: "fval \<Rightarrow> rat \<Rightarrow> fval" where
  "fscale (Finite x) c = Finite (x * c)"
| "fscale v c = v"

text \<open>
  \<open>t.Sub(u)\<close> of two clock readings in nanoseconds: a \<open>time.Duration\<close>, saturating at
  the smallest and the largest \<open>int64\<close>. \<open>d.Seconds()\<close> is the duration in seconds.
\<close>

definition time_sub :: "int \<Rightarrow> int \<Rightarrow> int" where
  "time_sub t u = max (- (2 ^ 63)) (min (2 ^ 63 - 1) (t - u))"

definition seconds :: "int \<Rightarrow> rat" where
  "seconds d = of_int d / 1000000000"

definition updateInterval :: int where
  "updateInterval = 1000000000"

definition smoothingFactor :: rat where
  "smoothingFactor = 0.2"

section \<open>The wipe pass\<close>

text \<open>
  What the pass prints and does to the device, in order: each \<open>Write\<close> with its byte
  count, each skip with its seek distance, each progress line with the numbers it shows
  (the ETA as the quotient \<open>etaSeconds\<close>), and the final summary. Rendering numbers as
  text (\<open>formatBytes\<close>, \<open>formatDuration\<close>) is left out.
\<close>

datatype event =
    Warn warning
  | Wrote int
  | Skipped int
  | Progress (percent: rat) (instant: rat) (smoothed: rat) (eta: fval) (coverage: "rat option")
  | Summary (processed: int) (average: fval) (overwritten: "(int \<times> fval) option")

text \<open>
  The local variables of \<open>wipeDevice\<close> that the loop updates, the offset of the open file
  (\<open>pos\<close>), the number of iterations begun (\<open>iter\<close>) and the output so far.
\<close>

record wstate =
  bytesWritten :: int
  bytesProcessed :: int
  lastUpdateTime :: int
  lastUpdateBytes :: int
  smoothedSpeed :: rat
  pos :: int
  iter :: nat
  trace :: "event list"

text \<open>
  Lines 301--315, the skip after a write. Inside the loop \<open>sz\<close> is positive (the loop
  is entered only with \<open>0 \<le> bytesProcessed < sz\<close> the first time).
\<close>

definition skip_step :: "env \<Rightarrow> int \<Rightarrow> int \<Rightarrow> int \<Rightarrow> wstate \<Rightarrow> error + wstate" where
  "skip_step e sz bufferSize skipFactor s =
     (if skipFactor > 1 \<and> bytesProcessed s < sz then
        let skipSize = mul64 bufferSize (sub64 skipFactor 1);
            skipSize = (if add64 (bytesProcessed s) skipSize > sz
                        then sub64 sz (bytesProcessed s) else skipSize)
        in case file_seek_cur e (iter s) (pos s) skipSize of
             Inl err \<Rightarrow> Inl err
           | Inr p \<Rightarrow>
               Inr (s\<lparr>bytesProcessed := add64 (bytesProcessed s) skipSize, pos := p,
                      trace := trace s @ [Skipped skipSize]\<rparr>)
      else Inr s)"

text \<open>
  Lines 317--356, the progress update at clock reading \<open>currentTime\<close>. The elapsed time
  divided by is at least one second here, and \<open>sz\<close> is positive inside the loop, so these
  two divisions are plain; the ETA divides by the smoothed speed, with no test before it.
\<close>

definition progressUpdate :: "int \<Rightarrow> int \<Rightarrow> int \<Rightarrow> wstate \<Rightarrow> wstate" where
  "progressUpdate sz skipFactor currentTime s =
     (if updateInterval \<le> time_sub currentTime (lastUpdateTime s) then
        let elapsedUpdate = seconds (time_sub currentTime (lastUpdateTime s));
            instantSpeed = of_int (sub64 (bytesProcessed s) (lastUpdateBytes s)) / elapsedUpdate;
            smoothedSpeed' =
              (if smoothedSpeed s = 0 then instantSpeed
               else smoothedSpeed s * (1 - smoothingFactor) + instantSpeed * smoothingFactor);
            remainingBytes = sub64 sz (bytesProcessed s);
            etaSeconds = fdiv (of_int remainingBytes) smoothedSpeed';
            percentComplete = of_int (bytesProcessed s) / of_int sz * 100;
            coveragePercent =
              (if skipFactor > 1 then Some (of_int (bytesWritten s) / of_int sz * 100)
               else None)
        in s\<lparr>lastUpdateTime := currentTime, lastUpdateBytes := bytesProcessed s,
              smoothedSpeed := smoothedSpeed',
              trace := trace s @
                [Progress percentComplete instantSpeed smoothedSpeed' etaSeconds coveragePercent]\<rparr>
      else s)"

text \<open>One iteration of the loop of \<open>wipeDevice\<close>, lines 281--356.\<close>

definition wipe_iter :: "env \<Rightarrow> slice \<Rightarrow> int \<Rightarrow> int \<Rightarrow> int \<Rightarrow> wstate \<Rightarrow> error + wstate" where
  "wipe_iter e buffer sz bufferSize skipFactor s =
     (if rand_fails e (iter s) then Inl RandFailed
      else
        let writeSize = bufferSize;
            writeSize = (if sub64 sz (bytesProcessed s) < writeSize
                         then sub64 sz (bytesProcessed s) else writeSize)
        in case slice_range buffer 0 writeSize of
             Inl err \<Rightarrow> Inl err
           | Inr chunk \<Rightarrow>
               (case file_write e (iter s) (pos s) chunk of
                  Inl err \<Rightarrow> Inl err
                | Inr (n, p) \<Rightarrow>
                    (case skip_step e sz bufferSize skipFactor
                            (s\<lparr>bytesWritten := add64 (bytesWritten s) n,
                               bytesProcessed := add64 (bytesProcessed s) n,
                               pos := p, trace := trace s @ [Wrote n]\<rparr>) of
                       Inl err \<Rightarrow> Inl err
                     | Inr s' \<Rightarrow>
                         Inr (progressUpdate sz skipFactor (now e (Suc (iter s)))
                                (s'\<lparr>iter := Suc (iter s)\<rparr>)))))"

text \<open>
  The loop \<open>for bytesProcessed < size\<close>. It need not terminate (a buffer size of 0 makes
  no progress), so it is a partial function: \<open>None\<close> is a run that never leaves the loop.
\<close>

partial_function (option) wipe_loop ::
  "env \<Rightarrow> slice \<Rightarrow> int \<Rightarrow> int \<Rightarrow> int \<Rightarrow> wstate \<Rightarrow> (error + wstate) option" where
  "wipe_loop e buffer sz bufferSize skipFactor s =
     (if bytesProcessed s < sz then
        (case wipe_iter e buffer sz bufferSize skipFactor s of
           Inl err \<Rightarrow> Some (Inl err)
         | Inr s' \<Rightarrow> wipe_loop e buffer sz bufferSize skipFactor s')
      else Some (Inr s))"

text \<open>
  Lines 359--381: the summary, then the final sync, whose failure only prints a warning.
\<close>

definition finish :: "env \<Rightarrow> int \<Rightarrow> int \<Rightarrow> wstate \<Rightarrow> wstate" where
  "finish e sz skipFactor s =
     (let totalTime = time_sub (now e (Suc (iter s))) (now e 0);
          averageSpeed = fdiv (of_int (bytesProcessed s)) (seconds totalTime);
          cov = (if skipFactor > 1
                 then Some (bytesWritten s,
                            fscale (fdiv (of_int (bytesWritten s)) (of_int sz)) 100)
                 else None);
          out = trace s @ [Summary (bytesProcessed s) averageSpeed cov]
      in s\<lparr>trace := (if sync_fails e then out @ [Warn FinalSyncFailed] else out)\<rparr>)"

definition init_wstate :: "env \<Rightarrow> warning list \<Rightarrow> wstate" where
  "init_wstate e ws =
     \<lparr>bytesWritten = 0, bytesProcessed = 0, lastUpdateTime = now e 0, lastUpdateBytes = 0,
      smoothedSpeed = 0, pos = 0, iter = 0, trace = map Warn ws\<rparr>"

text \<open>
  \<open>wipeDevice(path, size, bufferSize, skipFactor)\<close>: \<open>Some (Inr s)\<close> is the return of a nil
  error with the final state \<open>s\<close>, \<open>Some (Inl err)\<close> an error return or a panic.
\<close>

definition wipeDevice :: "env \<Rightarrow> int \<Rightarrow> int \<Rightarrow> int \<Rightarrow> (error + wstate) option" where
  "wipeDevice e sz bufferSize skipFactor =
     (case open_device e of
        Inl err \<Rightarrow> Some (Inl err)
      | Inr ws \<Rightarrow>
          (case allocAlignedBuffer (mem_limit e) (heap_addr e) (alignedBufferSize bufferSize) of
             Inl err \<Rightarrow> Some (Inl err)
           | Inr buffer \<Rightarrow>
               (case wipe_loop e buffer sz bufferSize skipFactor (init_wstate e ws) of
                  None \<Rightarrow> None
                | Some (Inl err) \<Rightarrow> Some (Inl err)
                | Some (Inr s) \<Rightarrow> Some (Inr (finish e sz skipFactor s)))))"

section \<open>The benchmark\<close>

record bstate =
  benchWritten :: int
  benchPos :: int
  benchIter :: nat
  benchTrace :: "event list"

text \<open>Lines 138--153: the volume to write, reduced for a small device.\<close>

definition benchVolume :: "int \<Rightarrow> int \<Rightarrow> int" where
  "benchVolume deviceSize bufferSize =
     (let benchSize = 10737418240
      in if deviceSize < mul64 benchSize 2 then
           let benchSize = go_div deviceSize 4
           in if benchSize < mul64 bufferSize 2 then mul64 bufferSize 2 else benchSize
         else benchSize)"

text \<open>One iteration of the benchmark loop, lines 168--191.\<close>

definition bench_iter :: "env \<Rightarrow> slice \<Rightarrow> int \<Rightarrow> int \<Rightarrow> bstate \<Rightarrow> error + bstate" where
  "bench_iter e buffer benchSize bufferSize s =
     (if rand_fails e (benchIter s) then Inl RandFailed
      else
        let writeSize = bufferSize;
            writeSize = (if sub64 benchSize (benchWritten s) < writeSize
                         then sub64 benchSize (benchWritten s) else writeSize)
        in case slice_range buffer 0 writeSize of
             Inl err \<Rightarrow> Inl err
           | Inr chunk \<Rightarrow>
               (case file_write e (benchIter s) (benchPos s) chunk of
                  Inl err \<Rightarrow> Inl err
                | Inr (n, p) \<Rightarrow>
                    Inr (s\<lparr>benchWritten := add64 (benchWritten s) n, benchPos := p,
                           benchIter := Suc (benchIter s),
                           benchTrace := benchTrace s @ [Wrote n]\<rparr>)))"

partial_function (option) bench_loop ::
  "env \<Rightarrow> slice \<Rightarrow> int \<Rightarrow> int \<Rightarrow> bstate \<Rightarrow> (error + bstate) option" where
  "bench_loop e buffer benchSize bufferSize s =
     (if benchWritten s < benchSize then
        (case bench_iter e buffer benchSize bufferSize s of
           Inl err \<Rightarrow> Some (Inl err)
         | Inr s' \<Rightarrow> bench_loop e buffer benchSize bufferSize s')
      else Some (Inr s))"

text \<open>
  What a benchmark that returns a nil error leaves behind: the bytes written, the measured
  speed, the offset recorded before the first write, and the offset of the file when it
  was closed.
\<close>

record bench_result =
  written :: int
  writeSpeed :: fval
  originalPos :: int
  finalPos :: int
  printed :: "event list"

text \<open>
  \<open>file.Seek(originalPos, 0)\<close>, an absolute seek: refused for a negative offset.
\<close>

definition file_seek_set :: "env \<Rightarrow> int \<Rightarrow> error + int" where
  "file_seek_set e target =
     (if restore_fails e \<or> target < 0 then Inl RestorePositionFailed else Inr target)"

text \<open>
  \<open>benchmarkWriteSpeed(path, bufferSize)\<close>. The file is freshly opened, so its offset
  starts at 0; \<open>file.Seek(0, 1)\<close> reads it.
\<close>

definition benchmarkWriteSpeed :: "env \<Rightarrow> int \<Rightarrow> (error + bench_result) option" where
  "benchmarkWriteSpeed e bufferSize =
     (case open_device e of
        Inl err \<Rightarrow> Some (Inl err)
      | Inr ws \<Rightarrow>
     (case allocAlignedBuffer (mem_limit e) (heap_addr e) (alignedBufferSize bufferSize) of
        Inl err \<Rightarrow> Some (Inl err)
      | Inr buffer \<Rightarrow>
     (case getDeviceSize e of
        Inl err \<Rightarrow> Some (Inl err)
      | Inr deviceSize \<Rightarrow>
     (if getpos_fails e then Some (Inl SeekFailed)
      else
        let benchSize = benchVolume deviceSize bufferSize;
            opened = (0 :: int);
            origPos = opened
        in case bench_loop e buffer benchSize bufferSize
                  \<lparr>benchWritten = 0, benchPos = opened, benchIter = 0,
                   benchTrace = map Warn ws\<rparr> of
             None \<Rightarrow> None
           | Some (Inl err) \<Rightarrow> Some (Inl err)
           | Some (Inr s) \<Rightarrow>
               (case file_seek_set e origPos of
                  Inl err \<Rightarrow> Some (Inl err)
                | Inr p \<Rightarrow>
                    if sync_fails e then Some (Inl BenchmarkSyncFailed)
                    else
                      let elapsedTime =
                            seconds (time_sub (now e (Suc (benchIter s))) (now e 0))
                      in Some (Inr \<lparr>written = benchWritten s,
                                    writeSpeed = fdiv (of_int (benchWritten s)) elapsedTime,
                                    originalPos = origPos, finalPos = p,
                                    printed = benchTrace s\<rparr>))))))"

section \<open>The command line\<close>

text \<open>
  The checks of \<open>main\<close> on its arguments, lines 24--33: the device path must not be empty,
  and the skip factor must be at least 1 unless \<open>-auto-skip\<close> is given. The flags
  \<open>-buffer\<close> and \<open>-skip\<close> are parsed as Go \<open>int\<close>s, so every 64-bit value is accepted;
  the buffer size is not checked at all.
\<close>

definition args_accepted :: "string \<Rightarrow> int \<Rightarrow> int \<Rightarrow> bool \<Rightarrow> bool" where
  "args_accepted blockDevice bufferSize skipFactor autoSkip \<longleftrightarrow>
     in64 bufferSize \<and> in64 skipFactor \<and>
     blockDevice \<noteq> [] \<and> \<not> (skipFactor < 1 \<and> \<not> autoSkip)"

section \<open>Reading a run off its output\<close>

text \<open>
  The byte counts of the writes, of the skips, and of both in the order they happened. The
  sum of the first \<open>n\<close> entries of \<open>io_sizes\<close> is the number of bytes processed after the
  first \<open>n\<close> writes and seeks.
\<close>

fun written_by :: "event \<Rightarrow> int list" where
  "written_by (Wrote n) = [n]"
| "written_by _ = []"

fun skipped_by :: "event \<Rightarrow> int list" where
  "skipped_by (Skipped n) = [n]"
| "skipped_by _ = []"

definition write_sizes :: "event list \<Rightarrow> int list" where
  "write_sizes evs = concat (map written_by evs)"

definition skip_sizes :: "event list \<Rightarrow> int list" where
  "skip_sizes evs = concat (map skipped_by evs)"

definition io_sizes :: "event list \<Rightarrow> int list" where
  "io_sizes evs = concat (map (\<lambda>ev. written_by ev @ skipped_by ev) evs)"

text \<open>
  \<open>well_clamped sz bufferSize skipFactor p evs\<close>: starting with \<open>p\<close> bytes processed, every
  write of \<open>evs\<close> has the size \<open>min bufferSize remaining\<close> and every skip the size
  \<open>min (bufferSize * (skipFactor - 1)) remaining\<close>, where \<open>remaining\<close> is the distance to
  the end of the device at that moment.
\<close>

fun well_clamped :: "int \<Rightarrow> int \<Rightarrow> int \<Rightarrow> int \<Rightarrow> event list \<Rightarrow> bool" where
  "well_clamped sz bufferSize skipFactor p [] = True"
| "well_clamped sz bufferSize skipFactor p (Wrote n # evs) =
     (n = min bufferSize (sz - p) \<and> well_clamped sz bufferSize skipFactor (p + n) evs)"
| "well_clamped sz bufferSize skipFactor p (Skipped n # evs) =
     (n = min (bufferSize * (skipFactor - 1)) (sz - p) \<and>
      well_clamped sz bufferSize skipFactor (p + n) evs)"
| "well_clamped sz bufferSize skipFactor p (_ # evs) =
     well_clamped sz bufferSize skipFactor p evs"

text \<open>
  A progress line whose ETA was computed by a division with a positive divisor.
\<close>

fun eta_divisor_positive :: "event \<Rightarrow> bool" where
  "eta_divisor_positive (Progress pc inst sm et cov) =
     (0 < sm \<and> (case et of Finite x \<Rightarrow> True | _ \<Rightarrow> False))"
| "eta_divisor_positive _ = True"

text \<open>
  An environment in which no input or output of the loops fails: the device can be opened
  (directly or by the fallback), and every random fill, write and seek succeeds. Whether
  the final sync succeeds is left open, and so are the probe of the size and the two seeks
  of the benchmark that read and restore the offset.
\<close>

definition io_succeeds :: "env \<Rightarrow> bool" where
  "io_succeeds e \<longleftrightarrow>
     (\<not> direct_open_fails e \<or> \<not> sync_open_fails e) \<and>
     (\<forall>k. \<not> rand_fails e k) \<and> (\<forall>k. \<not> write_fails e k) \<and> (\<forall>k. \<not> seek_fails e k)"

text \<open>
  Two concrete environments for running the model: a 20000-byte device on which every
  operation succeeds, the allocator returning a page-aligned array. In \<open>steady_env\<close> an
  iteration takes a millisecond, in \<open>slow_env\<close> a second (so that every iteration prints
  a progress line).
\<close>

definition steady_env :: env where
  "steady_env =
     \<lparr>direct_open_fails = False, sync_open_fails = False, probe_fails = False,
      device_size = 20000, mem_limit = 2 ^ 48, heap_addr = 824633720832,
      rand_fails = (\<lambda>k. False), write_fails = (\<lambda>k. False), seek_fails = (\<lambda>k. False),
      getpos_fails = False, restore_fails = False, sync_fails = False,
      now = (\<lambda>k. 1000000 * int k)\<rparr>"

definition slow_env :: env where
  "slow_env = steady_env\<lparr>now := (\<lambda>k. 1000000000 * int k)\<rparr>"

section \<open>Invariants of the wipe loop\<close>

text \<open>
  What holds of the state every time the loop condition is tested, provided no counter
  overflows: the counters are ordered and within the device, the file offset is the number
  of bytes processed, the output accounts for every byte, every write and skip was clamped,
  and every ETA printed so far had a positive divisor.
\<close>

definition wipe_inv :: "int \<Rightarrow> int \<Rightarrow> int \<Rightarrow> wstate \<Rightarrow> bool" where
  "wipe_inv sz bufferSize skipFactor s \<longleftrightarrow>
     0 \<le> bytesWritten s \<and> bytesWritten s \<le> bytesProcessed s \<and>
     0 \<le> bytesProcessed s \<and> bytesProcessed s \<le> sz \<and> pos s = bytesProcessed s \<and>
     0 \<le> lastUpdateBytes s \<and> lastUpdateBytes s \<le> bytesProcessed s \<and>
     0 \<le> smoothedSpeed s \<and>
     sum_list (io_sizes (trace s)) = bytesProcessed s \<and>
     sum_list (write_sizes (trace s)) = bytesWritten s \<and>
     (\<forall>x \<in> set (io_sizes (trace s)). 0 < x) \<and>
     well_clamped sz bufferSize skipFactor 0 (trace s) \<and>
     (\<forall>ev \<in> set (trace s). eta_divisor_positive ev)"

text \<open>
  The shape of a run after \<open>iter s\<close> iterations. While bytes remain, every iteration so
  far wrote a whole buffer and skipped \<open>skipFactor - 1\<close> buffers. Once the end is reached,
  the last iteration started \<open>r\<close> bytes before the end, wrote \<open>min bufferSize r\<close> of them
  and skipped the rest.
\<close>

definition wipe_shape :: "int \<Rightarrow> int \<Rightarrow> int \<Rightarrow> wstate \<Rightarrow> bool" where
  "wipe_shape sz bufferSize skipFactor s \<longleftrightarrow>
     (if bytesProcessed s < sz then
        bytesWritten s = bufferSize * int (iter s) \<and>
        bytesProcessed s = bufferSize * skipFactor * int (iter s) \<and>
        write_sizes (trace s) = replicate (iter s) bufferSize \<and>
        skip_sizes (trace s) =
          (if 1 < skipFactor then replicate (iter s) (bufferSize * (skipFactor - 1)) else [])
      else
        let r = sz - bufferSize * skipFactor * (int (iter s) - 1)
        in 0 < iter s \<and> 0 < r \<and> r \<le> bufferSize * skipFactor \<and>
           bytesWritten s = bufferSize * (int (iter s) - 1) + min bufferSize r \<and>
           write_sizes (trace s) = replicate (iter s - 1) bufferSize @ [min bufferSize r] \<and>
           skip_sizes (trace s) =
             (if 1 < skipFactor
              then replicate (iter s - 1) (bufferSize * (skipFactor - 1)) @
                   (if bufferSize < r then [r - bufferSize] else [])
              else []))"

section \<open>Arithmetic without overflow\<close>

lemma wrap64_id: "- (2 ^ 63) \<le> x \<Longrightarrow> x < 2 ^ 63 \<Longrightarrow> wrap64 x = x"
  unfolding wrap64_def by (simp add: mod_pos_pos_trivial)

lemma add64_id: "- (2 ^ 63) \<le> a + b \<Longrightarrow> a + b < 2 ^ 63 \<Longrightarrow> add64 a b = a + b"
  unfolding add64_def by (rule wrap64_id)

lemma sub64_id: "- (2 ^ 63) \<le> a - b \<Longrightarrow> a - b < 2 ^ 63 \<Longrightarrow> sub64 a b = a - b"
  unfolding sub64_def by (rule wrap64_id)

lemma mul64_id: "- (2 ^ 63) \<le> a * b \<Longrightarrow> a * b < 2 ^ 63 \<Longrightarrow> mul64 a b = a * b"
  unfolding mul64_def by (rule wrap64_id)

lemma go_div_nonneg: "0 \<le> a \<Longrightarrow> 0 < b \<Longrightarrow> go_div a b = a div b"
  unfolding go_div_def by (cases "a = 0") (simp_all add: sgn_if)

lemma go_rem_nonneg: "0 \<le> a \<Longrightarrow> 0 < b \<Longrightarrow> go_rem a b = a mod b"
  unfolding go_rem_def by (simp add: go_div_nonneg minus_mult_div_eq_mod)

lemma alignedBufferSize_pos:
  assumes "0 < b" "b < 2 ^ 63"
  shows "alignedBufferSize b = max 4096 (b div 4096 * 4096)"
proof -
  have d: "go_div b 4096 = b div 4096" using assms by (simp add: go_div_nonneg)
  have "0 \<le> b div 4096 * 4096" using assms by simp
  moreover have "b div 4096 * 4096 \<le> b" by simp
  ultimately have "mul64 (b div 4096) 4096 = b div 4096 * 4096"
    using assms by (intro mul64_id) simp_all
  then show ?thesis by (simp add: alignedBufferSize_def d Let_def max_def)
qed

lemma align_offset_cases:
  fixes addr :: int
  shows "(4096 - addr mod 4096) mod 4096 = (if addr mod 4096 = 0 then 0 else 4096 - addr mod 4096)"
proof (cases "addr mod 4096 = 0")
  case True
  then show ?thesis by simp
next
  case False
  have "0 \<le> addr mod 4096" "addr mod 4096 < 4096" by simp_all
  with False have "0 \<le> 4096 - addr mod 4096" "4096 - addr mod 4096 < 4096" by linarith+
  then have "(4096 - addr mod 4096) mod 4096 = 4096 - addr mod 4096"
    by (rule mod_pos_pos_trivial)
  with False show ?thesis by simp
qed

lemma aligned_start: "(addr + (4096 - addr mod 4096) mod 4096) mod 4096 = (0::int)"
proof (cases "addr mod 4096 = 0")
  case True
  then show ?thesis by (simp add: align_offset_cases)
next
  case False
  define d r where "d = addr div 4096" and "r = addr mod 4096"
  have e: "addr = 4096 * d + r" by (simp add: d_def r_def)
  have "addr + (4096 - r) = 4096 * (d + 1)"
    by (simp add: e algebra_simps)
  then have "(addr + (4096 - r)) mod 4096 = (4096 * (d + 1)) mod 4096" by (rule arg_cong)
  also have "\<dots> = 0" by (rule mod_mult_self1_is_0)
  finally have "(addr + (4096 - r)) mod 4096 = 0" .
  with False show ?thesis by (simp only: align_offset_cases if_False r_def)
qed

lemma allocAlignedBuffer_ok:
  assumes "0 \<le> addr" "0 < n" "n + 4096 \<le> limit" "limit < 2 ^ 63"
  shows "allocAlignedBuffer limit addr n =
           Inr \<lparr>base = addr + (4096 - addr mod 4096) mod 4096, len = n,
                cap = n + 4096 - (4096 - addr mod 4096) mod 4096\<rparr>"
proof -
  define r where "r = addr mod 4096"
  have rr: "0 \<le> r" "r < 4096" by (simp_all add: r_def)
  have g: "go_rem addr 4096 = r" using assms by (simp add: go_rem_nonneg r_def)
  have a: "add64 n 4096 = n + 4096" using assms by (intro add64_id) simp_all
  have s: "sub64 4096 r = 4096 - r" using rr by (intro sub64_id) simp_all
  have a0: "add64 0 n = n" using assms by (intro add64_id [of 0 n, simplified]) simp_all
  have a2: "add64 (4096 - r) n = 4096 - r + n" using assms rr by (intro add64_id) simp_all
  have "allocAlignedBuffer limit addr n =
          Inr \<lparr>base = addr + (if r = 0 then 0 else 4096 - r), len = n,
               cap = n + 4096 - (if r = 0 then 0 else 4096 - r)\<rparr>"
    unfolding allocAlignedBuffer_def make_bytes_def
    using assms rr by (simp add: a g s a0 a2 Let_def slice_range_def)
  then show ?thesis by (simp only: r_def align_offset_cases)
qed

section \<open>One iteration of the wipe loop\<close>

lemma skip_factor_bound:
  assumes "0 < sz" "0 < B" "1 \<le> k" "sz + B * (k - 1) < (2::int) ^ 63"
  shows "k - 1 < 2 ^ 63" "B * (k - 1) < 2 ^ 63" "0 \<le> B * (k - 1)"
proof -
  have "1 * (k - 1) \<le> B * (k - 1)" using assms by (intro mult_right_mono) simp_all
  then show "k - 1 < 2 ^ 63" using assms by simp
  show "B * (k - 1) < 2 ^ 63" using assms by simp
  show "0 \<le> B * (k - 1)" using assms by simp
qed

lemma skip_step_ok:
  assumes "0 \<le> bytesProcessed s" "bytesProcessed s \<le> sz" "0 < sz" "0 < B" "1 \<le> k"
    "sz + B * (k - 1) < 2 ^ 63" "\<not> seek_fails e (iter s)" "pos s = bytesProcessed s"
  shows "skip_step e sz B k s =
     Inr (if 1 < k \<and> bytesProcessed s < sz
          then s\<lparr>bytesProcessed := bytesProcessed s + min (B * (k - 1)) (sz - bytesProcessed s),
                 pos := bytesProcessed s + min (B * (k - 1)) (sz - bytesProcessed s),
                 trace := trace s @ [Skipped (min (B * (k - 1)) (sz - bytesProcessed s))]\<rparr>
          else s)"
proof (cases "1 < k \<and> bytesProcessed s < sz")
  case False
  then show ?thesis by (auto simp: skip_step_def)
next
  case True
  define p where "p = bytesProcessed s"
  define d where "d = B * (k - 1)"
  have b: "k - 1 < 2 ^ 63" "d < 2 ^ 63" "0 \<le> d"
    using skip_factor_bound [OF assms(3,4,5,6)] by (simp_all add: d_def)
  have pr: "0 \<le> p" "p < sz" "sz + d < 2 ^ 63" using assms True by (simp_all add: p_def d_def)
  have k1: "sub64 k 1 = k - 1" using b assms by (intro sub64_id) simp_all
  have ml: "mul64 B (k - 1) = d" unfolding d_def using b by (intro mul64_id) (simp_all add: d_def)
  have ad: "add64 p d = p + d" using pr b by (intro add64_id) simp_all
  have sb: "sub64 sz p = sz - p" using pr b assms by (intro sub64_id) simp_all
  have as: "add64 p (sz - p) = sz" using pr b by (simp add: add64_def wrap64_id)
  have sk: "0 \<le> m \<Longrightarrow> p + m \<le> sz \<Longrightarrow> file_seek_cur e (iter s) p m = Inr (p + m)" for m
    using assms pr b by (simp add: file_seek_cur_def)
  show ?thesis
  proof (cases "sz < p + d")
    case c: True
    then have m: "min d (sz - p) = sz - p" by simp
    have "skip_step e sz B k s =
            Inr (s\<lparr>bytesProcessed := sz, pos := sz, trace := trace s @ [Skipped (sz - p)]\<rparr>)"
      using True c assms(8) pr sk [of "sz - p"]
      by (simp add: skip_step_def k1 ml p_def [symmetric] ad sb as Let_def)
    then show ?thesis using True m by (simp add: p_def [symmetric] d_def [symmetric])
  next
    case c: False
    then have m: "min d (sz - p) = d" by simp
    have "skip_step e sz B k s =
            Inr (s\<lparr>bytesProcessed := p + d, pos := p + d, trace := trace s @ [Skipped d]\<rparr>)"
      using True c assms(8) pr b sk [of d]
      by (simp add: skip_step_def k1 ml p_def [symmetric] ad sb as Let_def)
    then show ?thesis using True m by (simp add: p_def [symmetric] d_def [symmetric])
  qed
qed

lemma wipe_iter_ok:
  assumes "0 \<le> bytesProcessed s" "bytesProcessed s < sz" "0 < B" "1 \<le> k"
    "sz + B * (k - 1) < 2 ^ 63"
    "\<not> rand_fails e (iter s)" "\<not> write_fails e (iter s)" "\<not> seek_fails e (iter s)"
    "pos s = bytesProcessed s" "0 \<le> bytesWritten s" "bytesWritten s \<le> bytesProcessed s"
    "min B sz \<le> cap buffer"
  defines "n \<equiv> min B (sz - bytesProcessed s)"
  defines "m \<equiv> min (B * (k - 1)) (sz - (bytesProcessed s + n))"
  shows "wipe_iter e buffer sz B k s =
     Inr (progressUpdate sz k (now e (Suc (iter s)))
           (if 1 < k \<and> bytesProcessed s + n < sz
            then s\<lparr>bytesWritten := bytesWritten s + n,
                   bytesProcessed := bytesProcessed s + n + m,
                   pos := bytesProcessed s + n + m,
                   trace := trace s @ [Wrote n, Skipped m], iter := Suc (iter s)\<rparr>
            else s\<lparr>bytesWritten := bytesWritten s + n,
                   bytesProcessed := bytesProcessed s + n,
                   pos := bytesProcessed s + n,
                   trace := trace s @ [Wrote n], iter := Suc (iter s)\<rparr>))"
proof -
  define p where "p = bytesProcessed s"
  have szpos: "0 < sz" using assms by simp
  have b: "k - 1 < 2 ^ 63" "B * (k - 1) < 2 ^ 63" "0 \<le> B * (k - 1)"
    using skip_factor_bound [OF szpos assms(3,4,5)] by simp_all
  have "sz < 2 ^ 63" using b(3) assms(5) by linarith
  then have pr: "0 \<le> p" "p < sz" "sz < 2 ^ 63" using assms by (simp_all add: p_def)
  have nr: "0 < n" "n \<le> B" "p + n \<le> sz" "n \<le> cap buffer"
    using assms pr by (simp_all add: n_def p_def)
  have sb: "sub64 sz p = sz - p" using pr by (intro sub64_id) simp_all
  have ws: "(if sz - p < B then sz - p else B) = n" by (simp add: n_def p_def min_def)
  have sl: "slice_range buffer 0 n = Inr \<lparr>base = base buffer, len = n, cap = cap buffer\<rparr>"
    using nr by (simp add: slice_range_def)
  have aw: "add64 (bytesWritten s) n = bytesWritten s + n"
    using assms pr nr by (intro add64_id) (simp_all add: p_def)
  have ap: "add64 p n = p + n" using pr nr by (intro add64_id) simp_all
  define s1 where "s1 = s\<lparr>bytesWritten := bytesWritten s + n, bytesProcessed := p + n,
                         pos := p + n, trace := trace s @ [Wrote n]\<rparr>"
  have s1: "bytesProcessed s1 = p + n" "pos s1 = p + n" "iter s1 = iter s"
    by (simp_all add: s1_def)
  have sk: "skip_step e sz B k s1 =
     Inr (if 1 < k \<and> bytesProcessed s1 < sz
          then s1\<lparr>bytesProcessed := bytesProcessed s1 + min (B * (k - 1)) (sz - bytesProcessed s1),
                 pos := bytesProcessed s1 + min (B * (k - 1)) (sz - bytesProcessed s1),
                 trace := trace s1 @ [Skipped (min (B * (k - 1)) (sz - bytesProcessed s1))]\<rparr>
          else s1)"
    using assms pr nr szpos by (intro skip_step_ok) (simp_all add: s1)
  have "wipe_iter e buffer sz B k s =
          (case skip_step e sz B k s1 of Inl err \<Rightarrow> Inl err
           | Inr s' \<Rightarrow> Inr (progressUpdate sz k (now e (Suc (iter s))) (s'\<lparr>iter := Suc (iter s)\<rparr>)))"
    using assms(6,7,9)
    by (simp add: wipe_iter_def Let_def p_def [symmetric] sb ws sl file_write_def aw ap s1_def
          split del: if_split cong del: if_weak_cong)
  also have "\<dots> = Inr (progressUpdate sz k (now e (Suc (iter s)))
           (if 1 < k \<and> p + n < sz
            then s\<lparr>bytesWritten := bytesWritten s + n,
                   bytesProcessed := p + n + m,
                   pos := p + n + m,
                   trace := trace s @ [Wrote n, Skipped m], iter := Suc (iter s)\<rparr>
            else s\<lparr>bytesWritten := bytesWritten s + n,
                   bytesProcessed := p + n,
                   pos := p + n,
                   trace := trace s @ [Wrote n], iter := Suc (iter s)\<rparr>))"
    unfolding sk by (simp add: s1_def m_def p_def)
  finally show ?thesis by (simp add: p_def)
qed

section \<open>The output of a run\<close>

lemma io_sizes_append: "io_sizes (xs @ ys) = io_sizes xs @ io_sizes ys"
  by (simp add: io_sizes_def)

lemma write_sizes_append: "write_sizes (xs @ ys) = write_sizes xs @ write_sizes ys"
  by (simp add: write_sizes_def)

lemma skip_sizes_append: "skip_sizes (xs @ ys) = skip_sizes xs @ skip_sizes ys"
  by (simp add: skip_sizes_def)

lemma sizes_simps:
  "io_sizes [] = []" "io_sizes (Wrote n # evs) = n # io_sizes evs"
  "io_sizes (Skipped n # evs) = n # io_sizes evs"
  "io_sizes (Progress a b c d f # evs) = io_sizes evs"
  "io_sizes (Summary g h i # evs) = io_sizes evs"
  "io_sizes (Warn w # evs) = io_sizes evs"
  "write_sizes [] = []" "write_sizes (Wrote n # evs) = n # write_sizes evs"
  "write_sizes (Skipped n # evs) = write_sizes evs"
  "write_sizes (Progress a b c d f # evs) = write_sizes evs"
  "write_sizes (Summary g h i # evs) = write_sizes evs"
  "write_sizes (Warn w # evs) = write_sizes evs"
  "skip_sizes [] = []" "skip_sizes (Wrote n # evs) = skip_sizes evs"
  "skip_sizes (Skipped n # evs) = n # skip_sizes evs"
  "skip_sizes (Progress a b c d f # evs) = skip_sizes evs"
  "skip_sizes (Summary g h i # evs) = skip_sizes evs"
  "skip_sizes (Warn w # evs) = skip_sizes evs"
  by (simp_all add: io_sizes_def write_sizes_def skip_sizes_def)

lemma well_clamped_append:
  "well_clamped sz B k p (xs @ ys) \<longleftrightarrow>
     well_clamped sz B k p xs \<and> well_clamped sz B k (p + sum_list (io_sizes xs)) ys"
  by (induction sz B k p xs rule: well_clamped.induct)
     (simp_all add: sizes_simps add.assoc)

lemma progressUpdate_fields:
  "bytesWritten (progressUpdate sz k t s) = bytesWritten s"
  "bytesProcessed (progressUpdate sz k t s) = bytesProcessed s"
  "pos (progressUpdate sz k t s) = pos s"
  "iter (progressUpdate sz k t s) = iter s"
  "io_sizes (trace (progressUpdate sz k t s)) = io_sizes (trace s)"
  "write_sizes (trace (progressUpdate sz k t s)) = write_sizes (trace s)"
  "skip_sizes (trace (progressUpdate sz k t s)) = skip_sizes (trace s)"
  "well_clamped sz' B k' p (trace (progressUpdate sz k t s)) = well_clamped sz' B k' p (trace s)"
  by (simp_all add: progressUpdate_def Let_def io_sizes_append write_sizes_append
        skip_sizes_append sizes_simps well_clamped_append)

lemma progressUpdate_last:
  "lastUpdateBytes (progressUpdate sz k t s) = lastUpdateBytes s \<or>
   lastUpdateBytes (progressUpdate sz k t s) = bytesProcessed s"
  by (simp add: progressUpdate_def Let_def)

lemma progressUpdate_positive:
  assumes "0 \<le> lastUpdateBytes s" "lastUpdateBytes s < bytesProcessed s"
    "bytesProcessed s < 2 ^ 63" "0 \<le> smoothedSpeed s"
    "\<forall>ev \<in> set (trace s). eta_divisor_positive ev"
  shows "0 \<le> smoothedSpeed (progressUpdate sz k t s) \<and>
         (\<forall>ev \<in> set (trace (progressUpdate sz k t s)). eta_divisor_positive ev)"
proof (cases "updateInterval \<le> time_sub t (lastUpdateTime s)")
  case False
  then show ?thesis using assms by (simp add: progressUpdate_def)
next
  case True
  define el where "el = seconds (time_sub t (lastUpdateTime s))"
  define inst where "inst = (of_int (bytesProcessed s - lastUpdateBytes s) :: rat) / el"
  define sm where "sm = (if smoothedSpeed s = 0 then inst
                         else smoothedSpeed s * (1 - smoothingFactor) + inst * smoothingFactor)"
  have "0 < time_sub t (lastUpdateTime s)" using True by (simp add: updateInterval_def)
  then have el: "0 < el" by (simp add: el_def seconds_def)
  have sb: "sub64 (bytesProcessed s) (lastUpdateBytes s) = bytesProcessed s - lastUpdateBytes s"
    using assms by (intro sub64_id) simp_all
  have "(0::rat) < of_int (bytesProcessed s - lastUpdateBytes s)" using assms by simp
  then have inst: "0 < inst" using el by (simp add: inst_def)
  have sm: "0 < sm"
  proof (cases "smoothedSpeed s = 0")
    case True
    then show ?thesis using inst by (simp add: sm_def)
  next
    case False
    then have "0 < smoothedSpeed s" using assms by simp
    then have "0 < smoothedSpeed s * (1 - smoothingFactor)" by (simp add: smoothingFactor_def)
    moreover have "0 < inst * smoothingFactor" using inst by (simp add: smoothingFactor_def)
    ultimately show ?thesis using False by (simp add: sm_def)
  qed
  define ev where "ev = Progress (of_int (bytesProcessed s) / of_int sz * 100) inst sm
      (fdiv (of_int (sub64 sz (bytesProcessed s))) sm)
      (if 1 < k then Some (of_int (bytesWritten s) / of_int sz * 100) else None)"
  have pu: "progressUpdate sz k t s =
          s\<lparr>lastUpdateTime := t, lastUpdateBytes := bytesProcessed s, smoothedSpeed := sm,
            trace := trace s @ [ev]\<rparr>"
    unfolding progressUpdate_def Let_def ev_def sm_def inst_def el_def sb [symmetric]
    using True by simp
  have "eta_divisor_positive ev" using sm by (simp add: ev_def fdiv_def)
  then show ?thesis using assms sm by (simp add: pu)
qed

lemma wipe_inv_step:
  assumes H: "0 < B" "1 \<le> k" "sz + B * (k - 1) < 2 ^ 63"
    "\<not> rand_fails e (iter s)" "\<not> write_fails e (iter s)" "\<not> seek_fails e (iter s)"
    "min B sz \<le> cap buffer"
    and inv: "wipe_inv sz B k s" and lt: "bytesProcessed s < sz"
  defines "p \<equiv> bytesProcessed s"
  defines "n \<equiv> min B (sz - p)"
  defines "m \<equiv> min (B * (k - 1)) (sz - (p + n))"
  defines "c \<equiv> 1 < k \<and> p + n < sz"
  shows "\<exists>s'. wipe_iter e buffer sz B k s = Inr s' \<and> wipe_inv sz B k s' \<and>
           bytesProcessed s < bytesProcessed s' \<and> iter s' = Suc (iter s) \<and>
           bytesWritten s' = bytesWritten s + n \<and>
           bytesProcessed s' = p + (if c then n + m else n) \<and>
           write_sizes (trace s') = write_sizes (trace s) @ [n] \<and>
           skip_sizes (trace s') = skip_sizes (trace s) @ (if c then [m] else [])"
proof -
  define evs where "evs = (if c then [Wrote n, Skipped m] else [Wrote n])"
  define adv where "adv = (if c then n + m else n)"
  define u where "u = s\<lparr>bytesWritten := bytesWritten s + n, bytesProcessed := p + adv,
      pos := p + adv, trace := trace s @ evs, iter := Suc (iter s)\<rparr>"
  have i: "0 \<le> bytesWritten s" "bytesWritten s \<le> p" "0 \<le> p" "p \<le> sz" "pos s = p"
    "0 \<le> lastUpdateBytes s" "lastUpdateBytes s \<le> p" "0 \<le> smoothedSpeed s"
    "sum_list (io_sizes (trace s)) = p" "sum_list (write_sizes (trace s)) = bytesWritten s"
    "\<forall>x \<in> set (io_sizes (trace s)). 0 < x" "well_clamped sz B k 0 (trace s)"
    "\<forall>ev \<in> set (trace s). eta_divisor_positive ev"
    using inv by (simp_all add: wipe_inv_def p_def)
  have szpos: "0 < sz" using i lt by (simp add: p_def)
  have b: "B * (k - 1) < 2 ^ 63" "0 \<le> B * (k - 1)"
    using skip_factor_bound [OF szpos H(1,2,3)] by simp_all
  have sz63: "sz < 2 ^ 63" using b(2) H(3) by linarith
  have n: "0 < n" "n \<le> B" "p + n \<le> sz" using H lt by (simp_all add: n_def p_def)
  have kc: "c \<Longrightarrow> 0 < B * (k - 1)" using H by (simp add: c_def)
  have mm: "c \<Longrightarrow> 0 < m \<and> p + n + m \<le> sz" using kc by (auto simp: m_def c_def)
  have adv: "0 < adv" "n \<le> adv" "p + adv \<le> sz" using n mm by (auto simp: adv_def)
  have it: "wipe_iter e buffer sz B k s = Inr (progressUpdate sz k (now e (Suc (iter s))) u)"
    using wipe_iter_ok [of s sz B k e buffer] H i lt
    by (simp add: p_def [symmetric] n_def [symmetric] m_def [symmetric] c_def [symmetric]
          u_def evs_def adv_def add.assoc)
  have io: "io_sizes evs = (if c then [n, m] else [n])" "write_sizes evs = [n]"
    "skip_sizes evs = (if c then [m] else [])"
    by (simp_all add: evs_def sizes_simps)
  have wc: "well_clamped sz B k p evs"
    by (simp add: evs_def n_def m_def)
  have u: "bytesWritten u = bytesWritten s + n" "bytesProcessed u = p + adv" "pos u = p + adv"
    "lastUpdateBytes u = lastUpdateBytes s" "smoothedSpeed u = smoothedSpeed s"
    "trace u = trace s @ evs" "iter u = Suc (iter s)"
    by (simp_all add: u_def)
  define s' where "s' = progressUpdate sz k (now e (Suc (iter s))) u"
  have f: "bytesWritten s' = bytesWritten s + n" "bytesProcessed s' = p + adv" "pos s' = p + adv"
    "iter s' = Suc (iter s)"
    "io_sizes (trace s') = io_sizes (trace s) @ io_sizes evs"
    "write_sizes (trace s') = write_sizes (trace s) @ [n]"
    "skip_sizes (trace s') = skip_sizes (trace s) @ (if c then [m] else [])"
    "well_clamped sz B k 0 (trace s') = well_clamped sz B k 0 (trace s @ evs)"
    by (simp_all add: s'_def progressUpdate_fields u io_sizes_append write_sizes_append
          skip_sizes_append io)
  have pp: "0 \<le> smoothedSpeed s' \<and> (\<forall>ev \<in> set (trace s'). eta_divisor_positive ev)"
    unfolding s'_def
  proof (rule progressUpdate_positive)
    show "0 \<le> lastUpdateBytes u" using i by (simp add: u)
    show "lastUpdateBytes u < bytesProcessed u" using i adv by (simp add: u)
    show "bytesProcessed u < 2 ^ 63" using adv sz63 by (simp add: u)
    show "0 \<le> smoothedSpeed u" using i by (simp add: u)
    show "\<forall>ev \<in> set (trace u). eta_divisor_positive ev" using i by (auto simp: u evs_def)
  qed
  have lu: "0 \<le> lastUpdateBytes s' \<and> lastUpdateBytes s' \<le> bytesProcessed s'"
    using progressUpdate_last [of sz k "now e (Suc (iter s))" u] i adv
    by (auto simp: s'_def [symmetric] u f progressUpdate_fields)
  have pos_io: "\<forall>x \<in> set (io_sizes (trace s')). 0 < x"
    using i n mm by (auto simp: f io)
  have sums: "sum_list (io_sizes (trace s')) = p + adv" "sum_list (write_sizes (trace s')) = bytesWritten s + n"
    using i by (simp_all add: f io adv_def)
  have wcl: "well_clamped sz B k 0 (trace s')"
    using i wc by (simp add: f well_clamped_append)
  have "wipe_inv sz B k s'"
    unfolding wipe_inv_def using i n adv pp lu pos_io sums wcl by (simp add: f)
  then show ?thesis using it adv by (simp add: s'_def [symmetric] f p_def adv_def)
qed

lemma wipe_shape_step:
  assumes H: "0 < B" "1 \<le> k"
    and sh: "wipe_shape sz B k s" and lt: "bytesProcessed s < sz"
    and le: "bytesProcessed s' \<le> sz"
    and it: "iter s' = Suc (iter s)"
    and w: "bytesWritten s' = bytesWritten s + n"
    and bp: "bytesProcessed s' = bytesProcessed s + (if c then n + m else n)"
    and ws: "write_sizes (trace s') = write_sizes (trace s) @ [n]"
    and ss: "skip_sizes (trace s') = skip_sizes (trace s) @ (if c then [m] else [])"
    and n: "n = min B (sz - bytesProcessed s)"
    and m: "m = min (B * (k - 1)) (sz - (bytesProcessed s + n))"
    and c: "c \<longleftrightarrow> 1 < k \<and> bytesProcessed s + n < sz"
  shows "wipe_shape sz B k s'"
proof -
  define i where "i = iter s"
  define p where "p = bytesProcessed s"
  define K where "K = B * k"
  define D where "D = B * (k - 1)"
  have KD: "K = B + D" by (simp add: K_def D_def algebra_simps)
  have D0: "0 \<le> D" using H by (simp add: D_def)
  have Dk: "k = 1 \<Longrightarrow> D = 0" by (simp add: D_def)
  have Ki: "B * k * int (Suc i) = K * int i + K" "B * k * int i = K * int i"
    by (simp_all add: K_def algebra_simps)
  have Bi: "B * int (Suc i) = B * int i + B" by (simp add: algebra_simps)
  have s0: "bytesWritten s = B * int i" "p = K * int i"
    "write_sizes (trace s) = replicate i B"
    "skip_sizes (trace s) = (if 1 < k then replicate i D else [])"
    using sh lt by (simp_all add: wipe_shape_def i_def p_def K_def D_def)
  have rep: "replicate i x @ [x] = replicate (Suc i) x" for x :: int
    by (simp add: replicate_append_same)
  show ?thesis
  proof (cases c)
    case True
    then have k1: "1 < k" and nB: "n = B" and pn: "p + B < sz"
      using c n by (auto simp: p_def min_def split: if_splits)
    have m': "m = min D (sz - (p + B))" using m nB by (simp add: D_def p_def)
    have bp': "bytesProcessed s' = p + B + m" using bp True nB by (simp add: p_def)
    show ?thesis
    proof (cases "bytesProcessed s' < sz")
      case lt': True
      then have mD: "m = D" using m' bp' by (simp add: min_def split: if_splits)
      have "bytesProcessed s' = K * int i + K" using bp' mD s0 KD by simp
      moreover have "bytesWritten s' = B * int i + B" using w nB s0 by simp
      moreover have "write_sizes (trace s') = replicate (Suc i) B"
        using ws nB s0 rep by simp
      moreover have "skip_sizes (trace s') = replicate (Suc i) D"
        using ss True mD s0 k1 rep by simp
      ultimately show ?thesis
        using lt' k1 unfolding wipe_shape_def it i_def [symmetric] Ki Bi D_def [symmetric]
        by simp
    next
      case ge: False
      then have e: "bytesProcessed s' = sz" using le by simp
      then have ms: "m = sz - p - B" using bp' by simp
      then have mle: "sz - p - B \<le> D" using m' by (simp add: min_def split: if_splits)
      define r where "r = sz - K * int i"
      have r: "r = sz - p" "B < r" "r \<le> K" "0 < r"
        using pn mle s0 KD H by (simp_all add: r_def)
      have "bytesWritten s' = B * int i + min B r" using w nB s0 r by simp
      moreover have "write_sizes (trace s') = replicate i B @ [min B r]"
        using ws nB s0 r by simp
      moreover have "skip_sizes (trace s') = replicate i D @ [r - B]"
        using ss True ms s0 k1 r by simp
      ultimately show ?thesis
        using ge k1 r unfolding wipe_shape_def it i_def [symmetric] Let_def
        by (simp add: K_def [symmetric] D_def [symmetric] r_def [symmetric])
    qed
  next
    case False
    have bp': "bytesProcessed s' = p + n" using bp False by (simp add: p_def)
    show ?thesis
    proof (cases "bytesProcessed s' < sz")
      case lt': True
      then have k1: "k = 1" using False c bp' H by (simp add: p_def)
      have nB: "n = B" using n lt' bp' by (simp add: p_def min_def split: if_splits)
      have "bytesProcessed s' = K * int i + K" using bp' nB s0 KD Dk k1 by simp
      moreover have "bytesWritten s' = B * int i + B" using w nB s0 by simp
      moreover have "write_sizes (trace s') = replicate (Suc i) B"
        using ws nB s0 rep by simp
      moreover have "skip_sizes (trace s') = []"
        using ss False s0 k1 by simp
      ultimately show ?thesis
        using lt' k1 unfolding wipe_shape_def it i_def [symmetric] Ki Bi
        by simp
    next
      case ge: False
      then have e: "bytesProcessed s' = sz" using le by simp
      define r where "r = sz - K * int i"
      have r: "r = sz - p" "n = r" "r \<le> B" "0 < r" "r \<le> K"
        using e bp' n s0 lt KD D0 by (simp_all add: r_def p_def min_def split: if_splits)
      have "bytesWritten s' = B * int i + min B r" using w s0 r by simp
      moreover have "write_sizes (trace s') = replicate i B @ [min B r]"
        using ws s0 r by simp
      moreover have "skip_sizes (trace s') = (if 1 < k then replicate i D else [])"
        using ss False s0 by simp
      ultimately show ?thesis
        using ge r unfolding wipe_shape_def it i_def [symmetric] Let_def
        by (simp add: K_def [symmetric] D_def [symmetric] r_def [symmetric])
    qed
  qed
qed

section \<open>The whole loop\<close>

lemma warns_sizes:
  "io_sizes (map Warn ws) = []" "write_sizes (map Warn ws) = []" "skip_sizes (map Warn ws) = []"
  by (induction ws) (simp_all add: sizes_simps)

lemma well_clamped_warns: "well_clamped sz B k p (map Warn ws)"
  by (induction ws) simp_all

lemma wipe_inv_init: "0 \<le> sz \<Longrightarrow> wipe_inv sz B k (init_wstate e ws)"
  by (auto simp: wipe_inv_def init_wstate_def warns_sizes well_clamped_warns)

lemma wipe_shape_init: "0 < sz \<Longrightarrow> wipe_shape sz B k (init_wstate e ws)"
  by (simp add: wipe_shape_def init_wstate_def warns_sizes)

lemma wipe_loop_total:
  assumes H: "0 < B" "1 \<le> k" "sz + B * (k - 1) < 2 ^ 63"
    "\<forall>i. \<not> rand_fails e i" "\<forall>i. \<not> write_fails e i" "\<forall>i. \<not> seek_fails e i"
    "min B sz \<le> cap buffer"
    and inv: "wipe_inv sz B k s" "wipe_shape sz B k s"
  shows "\<exists>s'. wipe_loop e buffer sz B k s = Some (Inr s') \<and> wipe_inv sz B k s' \<and>
           wipe_shape sz B k s' \<and> bytesProcessed s' = sz"
  using inv
proof (induction "nat (sz - bytesProcessed s)" arbitrary: s rule: less_induct)
  case less
  show ?case
  proof (cases "bytesProcessed s < sz")
    case False
    then have "bytesProcessed s = sz" using less.prems by (simp add: wipe_inv_def)
    moreover have "wipe_loop e buffer sz B k s = Some (Inr s)"
      using False by (subst wipe_loop.simps) simp
    ultimately show ?thesis using less.prems by simp
  next
    case True
    obtain s1 where s1: "wipe_iter e buffer sz B k s = Inr s1" "wipe_inv sz B k s1"
      "bytesProcessed s < bytesProcessed s1" "iter s1 = Suc (iter s)"
      "bytesWritten s1 = bytesWritten s + min B (sz - bytesProcessed s)"
      "bytesProcessed s1 = bytesProcessed s +
         (if 1 < k \<and> bytesProcessed s + min B (sz - bytesProcessed s) < sz
          then min B (sz - bytesProcessed s) +
               min (B * (k - 1)) (sz - (bytesProcessed s + min B (sz - bytesProcessed s)))
          else min B (sz - bytesProcessed s))"
      "write_sizes (trace s1) = write_sizes (trace s) @ [min B (sz - bytesProcessed s)]"
      "skip_sizes (trace s1) = skip_sizes (trace s) @
         (if 1 < k \<and> bytesProcessed s + min B (sz - bytesProcessed s) < sz
          then [min (B * (k - 1)) (sz - (bytesProcessed s + min B (sz - bytesProcessed s)))]
          else [])"
      using wipe_inv_step [OF H(1,2,3) _ _ _ H(7) less.prems(1) True, of e] H(4,5,6)
      by blast
    have le: "bytesProcessed s1 \<le> sz" using s1(2) by (simp add: wipe_inv_def)
    have sh: "wipe_shape sz B k s1"
      by (rule wipe_shape_step [OF H(1,2) less.prems(2) True le s1(4,5,6,7,8)]) simp_all
    have "nat (sz - bytesProcessed s1) < nat (sz - bytesProcessed s)"
      using s1(3) True by simp
    from less.hyps [OF this s1(2) sh]
    obtain s' where s': "wipe_loop e buffer sz B k s1 = Some (Inr s')" "wipe_inv sz B k s'"
      "wipe_shape sz B k s'" "bytesProcessed s' = sz" by blast
    have "wipe_loop e buffer sz B k s = wipe_loop e buffer sz B k s1"
      using True s1(1) by (subst wipe_loop.simps) simp
    then show ?thesis using s' by simp
  qed
qed

section \<open>Complete runs of the wipe pass\<close>

lemma prefix_sum_le:
  fixes xs :: "int list"
  assumes "\<forall>x \<in> set xs. 0 < x"
  shows "sum_list (take n xs) \<le> sum_list xs"
  using assms
proof (induction xs arbitrary: n)
  case Nil
  then show ?case by simp
next
  case (Cons x xs)
  then show ?case by (cases n) (simp_all add: sum_list_nonneg order_less_imp_le add_nonneg_nonneg)
qed

lemma prefix_sum_less:
  fixes xs :: "int list"
  assumes "\<forall>x \<in> set xs. 0 < x" "n < length xs"
  shows "sum_list (take n xs) < sum_list xs"
  using assms
proof (induction xs arbitrary: n)
  case Nil
  then show ?case by simp
next
  case (Cons x xs)
  show ?case
  proof (cases n)
    case 0
    have "0 \<le> sum_list xs" using Cons.prems by (intro sum_list_nonneg) (simp add: order_less_imp_le)
    then show ?thesis using 0 Cons.prems by simp
  next
    case (Suc j)
    then show ?thesis using Cons by simp
  qed
qed

lemma finish_fields:
  "bytesWritten (finish e sz k s) = bytesWritten s"
  "bytesProcessed (finish e sz k s) = bytesProcessed s"
  "io_sizes (trace (finish e sz k s)) = io_sizes (trace s)"
  "write_sizes (trace (finish e sz k s)) = write_sizes (trace s)"
  "skip_sizes (trace (finish e sz k s)) = skip_sizes (trace s)"
  "well_clamped sz' B k' p (trace (finish e sz k s)) = well_clamped sz' B k' p (trace s)"
  by (simp_all add: finish_def Let_def io_sizes_append write_sizes_append skip_sizes_append
        sizes_simps well_clamped_append)

lemma finish_trace:
  "trace (finish e sz k s) =
     trace s @
     Summary (bytesProcessed s)
       (fdiv (of_int (bytesProcessed s)) (seconds (time_sub (now e (Suc (iter s))) (now e 0))))
       (if 1 < k then Some (bytesWritten s, fscale (fdiv (of_int (bytesWritten s)) (of_int sz)) 100)
        else None) #
     (if sync_fails e then [Warn FinalSyncFailed] else [])"
  by (simp add: finish_def Let_def)

lemma finish_eta:
  "(\<forall>ev \<in> set (trace (finish e sz k s)). eta_divisor_positive ev) \<longleftrightarrow>
   (\<forall>ev \<in> set (trace s). eta_divisor_positive ev)"
  by (auto simp: finish_trace)

lemma wipeDevice_run:
  assumes "0 < sz" "0 < B" "1 \<le> k" "sz + B * (k - 1) < 2 ^ 63" "io_succeeds e"
    "allocAlignedBuffer (mem_limit e) (heap_addr e) (alignedBufferSize B) = Inr buffer"
    "min B sz \<le> cap buffer"
  shows "\<exists>s. wipeDevice e sz B k = Some (Inr (finish e sz k s)) \<and> wipe_inv sz B k s \<and>
           wipe_shape sz B k s \<and> bytesProcessed s = sz"
proof -
  have "\<exists>ws. open_device e = Inr ws"
    using assms(5) by (cases "direct_open_fails e") (simp_all add: io_succeeds_def open_device_def)
  then obtain ws where ws: "open_device e = Inr ws" ..
  have io: "\<forall>i. \<not> rand_fails e i" "\<forall>i. \<not> write_fails e i" "\<forall>i. \<not> seek_fails e i"
    using assms(5) by (simp_all add: io_succeeds_def)
  have i0: "wipe_inv sz B k (init_wstate e ws)" using assms(1) by (intro wipe_inv_init) simp
  have s0: "wipe_shape sz B k (init_wstate e ws)" using assms(1) by (rule wipe_shape_init)
  obtain s where s: "wipe_loop e buffer sz B k (init_wstate e ws) = Some (Inr s)"
    "wipe_inv sz B k s" "wipe_shape sz B k s" "bytesProcessed s = sz"
    using wipe_loop_total [OF assms(2,3,4) io assms(7) i0 s0] by blast
  have "wipeDevice e sz B k = Some (Inr (finish e sz k s))"
    by (simp add: wipeDevice_def ws assms(6) s(1))
  then show ?thesis using s(2,3,4) by (intro exI [of _ s] conjI)
qed

lemma final_shape:
  assumes "wipe_shape sz B k s" "bytesProcessed s = sz"
  shows "0 < iter s"
    "0 < sz - B * k * (int (iter s) - 1)"
    "sz - B * k * (int (iter s) - 1) \<le> B * k"
    "bytesWritten s = B * (int (iter s) - 1) + min B (sz - B * k * (int (iter s) - 1))"
    "write_sizes (trace s) = replicate (iter s - 1) B @ [min B (sz - B * k * (int (iter s) - 1))]"
    "skip_sizes (trace s) =
       (if 1 < k
        then replicate (iter s - 1) (B * (k - 1)) @
             (if B < sz - B * k * (int (iter s) - 1)
              then [sz - B * k * (int (iter s) - 1) - B] else [])
        else [])"
  using assms by (simp_all add: wipe_shape_def Let_def)

lemma written_bounds:
  assumes "0 < B" "1 \<le> k" "wipe_shape sz B k s" "bytesProcessed s = sz"
  shows "sz \<le> bytesWritten s * k" "bytesWritten s * k < sz + B * k"
proof -
  define j where "j = int (iter s) - 1"
  define r where "r = sz - B * k * j"
  have f: "0 < r" "r \<le> B * k" "bytesWritten s = B * j + min B r"
    using final_shape [OF assms(3,4)] by (simp_all add: r_def j_def)
  have e: "bytesWritten s * k = B * k * j + min B r * k" "sz = B * k * j + r"
    by (simp_all add: f r_def algebra_simps)
  have lo: "r \<le> min B r * k"
  proof (cases "B \<le> r")
    case True
    then show ?thesis using f by (simp add: min_absorb1)
  next
    case False
    then have "min B r = r" by simp
    moreover have "r * 1 \<le> r * k" using f assms by (intro mult_left_mono) simp_all
    ultimately show ?thesis by simp
  qed
  have "min B r * k \<le> B * k" using assms by (intro mult_right_mono) simp_all
  then have hi: "min B r * k < r + B * k" using f by simp
  show "sz \<le> bytesWritten s * k" using lo unfolding e by simp
  show "bytesWritten s * k < sz + B * k" using hi unfolding e by simp
qed

section \<open>Concrete runs\<close>

lemmas machine_defs = add64_def sub64_def mul64_def wrap64_def go_div_def go_rem_def

lemma steady_io: "io_succeeds steady_env"
  by (simp add: io_succeeds_def steady_env_def)

lemma steady_alloc_4096:
  "allocAlignedBuffer (mem_limit steady_env) (heap_addr steady_env) (alignedBufferSize 4096) =
     Inr \<lparr>base = 824633720832, len = 4096, cap = 8192\<rparr>"
  by (simp add: steady_env_def allocAlignedBuffer_def alignedBufferSize_def make_bytes_def
        slice_range_def machine_defs Let_def)

lemma steady_alloc_small:
  "0 < B \<Longrightarrow> B < 4096 \<Longrightarrow>
   allocAlignedBuffer (mem_limit steady_env) (heap_addr steady_env) (alignedBufferSize B) =
     Inr \<lparr>base = 824633720832, len = 4096, cap = 8192\<rparr>"
  by (simp add: steady_env_def allocAlignedBuffer_def alignedBufferSize_def make_bytes_def
        slice_range_def machine_defs Let_def sgn_if)

lemma cycle_iter:
  assumes "bytesProcessed s = 0" "pos s = 0"
  shows "\<exists>s'. wipe_iter steady_env \<lparr>base = 824633720832, len = 4096, cap = 8192\<rparr>
                 10 4 4611686018427387904 s = Inr s' \<and>
              bytesProcessed s' = 0 \<and> pos s' = 0"
proof -
  define u where "u = s\<lparr>bytesWritten := wrap64 (bytesWritten s + 4), bytesProcessed := 0, pos := 0,
       trace := trace s @ [Wrote 4, Skipped (- 4)], iter := Suc (iter s)\<rparr>"
  have "wipe_iter steady_env \<lparr>base = 824633720832, len = 4096, cap = 8192\<rparr>
          10 4 4611686018427387904 s =
        Inr (progressUpdate 10 4611686018427387904 (now steady_env (Suc (iter s))) u)"
    using assms
    by (simp add: wipe_iter_def skip_step_def slice_range_def file_write_def file_seek_cur_def
          machine_defs steady_env_def Let_def u_def)
  moreover have "bytesProcessed u = 0" "pos u = 0" by (simp_all add: u_def)
  ultimately show ?thesis by (simp add: progressUpdate_fields)
qed

lemma cycle_never_returns:
  assumes "wipe_loop e buffer sz B k s = Some y"
  shows "\<not> (e = steady_env \<and> buffer = \<lparr>base = 824633720832, len = 4096, cap = 8192\<rparr> \<and>
            sz = 10 \<and> B = 4 \<and> k = 4611686018427387904 \<and>
            bytesProcessed s = 0 \<and> pos s = 0)"
proof (rule wipe_loop.raw_induct [where P = "\<lambda>(e::env) (buffer::slice) (sz::int) (B::int) (k::int) (s::wstate) (y::error + wstate).
          \<not> (e = steady_env \<and> buffer = \<lparr>base = 824633720832, len = 4096, cap = 8192\<rparr> \<and>
            sz = 10 \<and> B = 4 \<and> k = 4611686018427387904 \<and>
            bytesProcessed s = 0 \<and> pos s = 0)", OF _ assms])
  fix loop :: "env \<Rightarrow> slice \<Rightarrow> int \<Rightarrow> int \<Rightarrow> int \<Rightarrow> wstate \<Rightarrow> (error + wstate) option"
    and e :: env and buffer :: slice and sz B k :: int and s :: wstate and y :: "error + wstate"
  assume IH: "\<And>(e::env) (buffer::slice) (sz::int) (B::int) (k::int) (s::wstate) y.
          loop e buffer sz B k s = Some y \<Longrightarrow>
          \<not> (e = steady_env \<and> buffer = \<lparr>base = 824633720832, len = 4096, cap = 8192\<rparr> \<and>
            sz = 10 \<and> B = 4 \<and> k = 4611686018427387904 \<and>
            bytesProcessed s = 0 \<and> pos s = 0)"
  assume eq: "(if bytesProcessed s < sz
         then case wipe_iter e buffer sz B k s of
              Inl err \<Rightarrow> Some (Inl err)
              | Inr s' \<Rightarrow> loop e buffer sz B k s'
         else Some (Inr s)) = Some y"
  show "\<not> (e = steady_env \<and> buffer = \<lparr>base = 824633720832, len = 4096, cap = 8192\<rparr> \<and>
            sz = 10 \<and> B = 4 \<and> k = 4611686018427387904 \<and>
            bytesProcessed s = 0 \<and> pos s = 0)"
  proof
    assume a: "e = steady_env \<and> buffer = \<lparr>base = 824633720832, len = 4096, cap = 8192\<rparr> \<and>
            sz = 10 \<and> B = 4 \<and> k = 4611686018427387904 \<and>
            bytesProcessed s = 0 \<and> pos s = 0"
    then obtain s' where s': "wipe_iter e buffer sz B k s = Inr s'"
      "bytesProcessed s' = 0" "pos s' = 0"
      using cycle_iter [of s] by auto
    have "loop e buffer sz B k s' = Some y" using eq a s'(1) by simp
    from IH [OF this] a s'(2,3) show False by simp
  qed
qed

lemmas run_defs = wipeDevice_def open_device_def allocAlignedBuffer_def alignedBufferSize_def
  make_bytes_def slice_range_def init_wstate_def wipe_iter_def skip_step_def progressUpdate_def
  file_write_def file_seek_cur_def time_sub_def updateInterval_def seconds_def fdiv_def
  smoothingFactor_def finish_def Let_def

lemma slow_io: "io_succeeds slow_env"
  by (simp add: io_succeeds_def slow_env_def steady_env_def)

lemma slow_alloc_4096:
  "allocAlignedBuffer (mem_limit slow_env) (heap_addr slow_env) (alignedBufferSize 4096) =
     Inr \<lparr>base = 824633720832, len = 4096, cap = 8192\<rparr>"
  using steady_alloc_4096 by (simp add: slow_env_def)

lemmas bench_defs = benchmarkWriteSpeed_def open_device_def allocAlignedBuffer_def
  alignedBufferSize_def make_bytes_def slice_range_def getDeviceSize_def benchVolume_def
  bench_iter_def file_write_def file_seek_set_def time_sub_def seconds_def fdiv_def Let_def

lemma steady_benchmark:
  "benchmarkWriteSpeed steady_env 4096 =
     Some (Inr \<lparr>written = 8192, writeSpeed = Finite (8192000 / 3), originalPos = 0,
          finalPos = 0, printed = [Wrote 4096, Wrote 4096]\<rparr>)"
  by (simp add: steady_env_def bench_defs machine_defs bench_loop.simps)

section \<open>The loops do not look at the sync and restore outcomes\<close>

lemma wipe_loop_env_step:
  assumes ag: "\<And>s. wipe_iter e buffer sz B k s = wipe_iter e' buffer sz B k s"
    and r: "wipe_loop e0 buffer0 sz0 B0 k0 s = Some y"
  shows "e0 = e \<and> buffer0 = buffer \<and> sz0 = sz \<and> B0 = B \<and> k0 = k \<longrightarrow>
           wipe_loop e' buffer sz B k s = Some y"
proof (rule wipe_loop.raw_induct [where P = "\<lambda>(e0::env) (buffer0::slice) (sz0::int) (B0::int)
          (k0::int) (s::wstate) (y::error + wstate).
          e0 = e \<and> buffer0 = buffer \<and> sz0 = sz \<and> B0 = B \<and> k0 = k \<longrightarrow>
           wipe_loop e' buffer sz B k s = Some y", OF _ r])
  fix loop :: "env \<Rightarrow> slice \<Rightarrow> int \<Rightarrow> int \<Rightarrow> int \<Rightarrow> wstate \<Rightarrow> (error + wstate) option"
    and e0 :: env and buffer0 :: slice and sz0 B0 k0 :: int and s :: wstate
    and y :: "error + wstate"
  assume IH: "\<And>(e0::env) (buffer0::slice) (sz0::int) (B0::int) (k0::int) (s::wstate) y.
          loop e0 buffer0 sz0 B0 k0 s = Some y \<Longrightarrow>
          e0 = e \<and> buffer0 = buffer \<and> sz0 = sz \<and> B0 = B \<and> k0 = k \<longrightarrow>
           wipe_loop e' buffer sz B k s = Some y"
  assume eq: "(if bytesProcessed s < sz0
         then case wipe_iter e0 buffer0 sz0 B0 k0 s of
              Inl err \<Rightarrow> Some (Inl err)
              | Inr s' \<Rightarrow> loop e0 buffer0 sz0 B0 k0 s'
         else Some (Inr s)) = Some y"
  show "e0 = e \<and> buffer0 = buffer \<and> sz0 = sz \<and> B0 = B \<and> k0 = k \<longrightarrow>
           wipe_loop e' buffer sz B k s = Some y"
  proof
    assume a: "e0 = e \<and> buffer0 = buffer \<and> sz0 = sz \<and> B0 = B \<and> k0 = k"
    show "wipe_loop e' buffer sz B k s = Some y"
    proof (cases "bytesProcessed s < sz")
      case False
      then show ?thesis using eq a by (subst wipe_loop.simps) simp
    next
      case True
      show ?thesis
      proof (cases "wipe_iter e buffer sz B k s")
        case (Inl err)
        then have "y = Inl err" using eq a True by simp
        then show ?thesis using Inl True ag [of s] by (subst wipe_loop.simps) simp
      next
        case (Inr s')
        then have "loop e buffer sz B k s' = Some y" using eq a True by simp
        from IH [OF this] have "wipe_loop e' buffer sz B k s' = Some y" by simp
        then show ?thesis using Inr True ag [of s] by (subst wipe_loop.simps) simp
      qed
    qed
  qed
qed

lemma wipe_loop_env_cong:
  assumes "\<And>s. wipe_iter e buffer sz B k s = wipe_iter e' buffer sz B k s"
  shows "wipe_loop e buffer sz B k s = wipe_loop e' buffer sz B k s"
proof (cases "wipe_loop e buffer sz B k s")
  case (Some y)
  then show ?thesis using wipe_loop_env_step [OF assms Some] by simp
next
  case None
  show ?thesis
  proof (cases "wipe_loop e' buffer sz B k s")
    case n: None
    then show ?thesis using None by simp
  next
    case (Some y)
    have "wipe_loop e buffer sz B k s = Some y"
      using wipe_loop_env_step [OF assms [symmetric] Some] by simp
    then show ?thesis using None by simp
  qed
qed

lemma bench_loop_env_step:
  assumes ag: "\<And>s. bench_iter e buffer bs B s = bench_iter e' buffer bs B s"
    and r: "bench_loop e0 buffer0 bs0 B0 s = Some y"
  shows "e0 = e \<and> buffer0 = buffer \<and> bs0 = bs \<and> B0 = B \<longrightarrow>
           bench_loop e' buffer bs B s = Some y"
proof (rule bench_loop.raw_induct [where P = "\<lambda>(e0::env) (buffer0::slice) (bs0::int) (B0::int)
          (s::bstate) (y::error + bstate).
          e0 = e \<and> buffer0 = buffer \<and> bs0 = bs \<and> B0 = B \<longrightarrow>
           bench_loop e' buffer bs B s = Some y", OF _ r])
  fix loop :: "env \<Rightarrow> slice \<Rightarrow> int \<Rightarrow> int \<Rightarrow> bstate \<Rightarrow> (error + bstate) option"
    and e0 :: env and buffer0 :: slice and bs0 B0 :: int and s :: bstate
    and y :: "error + bstate"
  assume IH: "\<And>(e0::env) (buffer0::slice) (bs0::int) (B0::int) (s::bstate) y.
          loop e0 buffer0 bs0 B0 s = Some y \<Longrightarrow>
          e0 = e \<and> buffer0 = buffer \<and> bs0 = bs \<and> B0 = B \<longrightarrow>
           bench_loop e' buffer bs B s = Some y"
  assume eq: "(if benchWritten s < bs0
         then case bench_iter e0 buffer0 bs0 B0 s of
              Inl err \<Rightarrow> Some (Inl err)
              | Inr s' \<Rightarrow> loop e0 buffer0 bs0 B0 s'
         else Some (Inr s)) = Some y"
  show "e0 = e \<and> buffer0 = buffer \<and> bs0 = bs \<and> B0 = B \<longrightarrow>
           bench_loop e' buffer bs B s = Some y"
  proof
    assume a: "e0 = e \<and> buffer0 = buffer \<and> bs0 = bs \<and> B0 = B"
    show "bench_loop e' buffer bs B s = Some y"
    proof (cases "benchWritten s < bs")
      case False
      then show ?thesis using eq a by (subst bench_loop.simps) simp
    next
      case True
      show ?thesis
      proof (cases "bench_iter e buffer bs B s")
        case (Inl err)
        then have "y = Inl err" using eq a True by simp
        then show ?thesis using Inl True ag [of s] by (subst bench_loop.simps) simp
      next
        case (Inr s')
        then have "loop e buffer bs B s' = Some y" using eq a True by simp
        from IH [OF this] have "bench_loop e' buffer bs B s' = Some y" by simp
        then show ?thesis using Inr True ag [of s] by (subst bench_loop.simps) simp
      qed
    qed
  qed
qed

lemma bench_loop_env_cong:
  assumes "\<And>s. bench_iter e buffer bs B s = bench_iter e' buffer bs B s"
  shows "bench_loop e buffer bs B s = bench_loop e' buffer bs B s"
proof (cases "bench_loop e buffer bs B s")
  case (Some y)
  then show ?thesis using bench_loop_env_step [OF assms Some] by simp
next
  case None
  show ?thesis
  proof (cases "bench_loop e' buffer bs B s")
    case n: None
    then show ?thesis using None by simp
  next
    case (Some y)
    have "bench_loop e buffer bs B s = Some y"
      using bench_loop_env_step [OF assms [symmetric] Some] by simp
    then show ?thesis using None by simp
  qed
qed

lemma io_ignores_sync:
  "file_write (e\<lparr>sync_fails := b\<rparr>) k p c = file_write e k p c"
  "file_seek_cur (e\<lparr>sync_fails := b\<rparr>) k p d = file_seek_cur e k p d"
  "file_write (e\<lparr>restore_fails := b\<rparr>) k p c = file_write e k p c"
  by (simp_all add: file_write_def file_seek_cur_def)

lemma skip_step_sync:
  "skip_step (e\<lparr>sync_fails := b\<rparr>) sz B k s = skip_step e sz B k s"
  by (simp add: skip_step_def io_ignores_sync)

lemma wipe_loop_sync:
  "wipe_loop (e\<lparr>sync_fails := b\<rparr>) buffer sz B k s = wipe_loop e buffer sz B k s"
  by (rule wipe_loop_env_cong)
     (simp add: wipe_iter_def io_ignores_sync skip_step_sync cong: sum.case_cong)

lemma bench_loop_sync:
  "bench_loop (e\<lparr>sync_fails := b\<rparr>) buffer bs B s = bench_loop e buffer bs B s"
  by (rule bench_loop_env_cong) (simp add: bench_iter_def io_ignores_sync cong: sum.case_cong)

lemma bench_loop_restore:
  "bench_loop (e\<lparr>restore_fails := b\<rparr>) buffer bs B s = bench_loop e buffer bs B s"
  by (rule bench_loop_env_cong) (simp add: bench_iter_def io_ignores_sync cong: sum.case_cong)

section \<open>Complete runs of the benchmark\<close>

lemma bench_iter_ok:
  assumes "0 \<le> benchWritten s" "benchWritten s < bs" "bs < 2 ^ 63" "0 < B"
    "\<not> rand_fails e (benchIter s)" "\<not> write_fails e (benchIter s)" "min B bs \<le> cap buffer"
  shows "bench_iter e buffer bs B s =
           Inr (s\<lparr>benchWritten := benchWritten s + min B (bs - benchWritten s),
                  benchPos := benchPos s + min B (bs - benchWritten s),
                  benchIter := Suc (benchIter s),
                  benchTrace := benchTrace s @ [Wrote (min B (bs - benchWritten s))]\<rparr>)"
proof -
  define w where "w = benchWritten s"
  define n where "n = min B (bs - w)"
  have n: "0 < n" "n \<le> B" "w + n \<le> bs" "n \<le> cap buffer"
    using assms by (simp_all add: n_def w_def)
  have sb: "sub64 bs w = bs - w" using assms by (intro sub64_id) (simp_all add: w_def)
  have ws: "(if bs - w < B then bs - w else B) = n" by (simp add: n_def min_def)
  have sl: "slice_range buffer 0 n = Inr \<lparr>base = base buffer, len = n, cap = cap buffer\<rparr>"
    using n by (simp add: slice_range_def)
  have aw: "add64 w n = w + n" using assms n by (intro add64_id) (simp_all add: w_def)
  have "bench_iter e buffer bs B s =
           Inr (s\<lparr>benchWritten := w + n, benchPos := benchPos s + n,
                  benchIter := Suc (benchIter s), benchTrace := benchTrace s @ [Wrote n]\<rparr>)"
    using assms(5,6)
    by (simp add: bench_iter_def Let_def w_def [symmetric] sb ws sl file_write_def aw
          split del: if_split cong del: if_weak_cong)
  then show ?thesis by (simp add: n_def w_def)
qed

lemma bench_loop_total:
  assumes H: "bs < 2 ^ 63" "0 < B" "\<forall>i. \<not> rand_fails e i" "\<forall>i. \<not> write_fails e i"
    "min B bs \<le> cap buffer"
    and inv: "0 \<le> benchWritten s" "benchWritten s \<le> bs"
  shows "\<exists>s'. bench_loop e buffer bs B s = Some (Inr s') \<and> benchWritten s' = bs"
  using inv
proof (induction "nat (bs - benchWritten s)" arbitrary: s rule: less_induct)
  case less
  show ?case
  proof (cases "benchWritten s < bs")
    case False
    then have "benchWritten s = bs" using less.prems by simp
    moreover have "bench_loop e buffer bs B s = Some (Inr s)"
      using False by (subst bench_loop.simps) simp
    ultimately show ?thesis by simp
  next
    case True
    define s1 where "s1 = s\<lparr>benchWritten := benchWritten s + min B (bs - benchWritten s),
                  benchPos := benchPos s + min B (bs - benchWritten s),
                  benchIter := Suc (benchIter s),
                  benchTrace := benchTrace s @ [Wrote (min B (bs - benchWritten s))]\<rparr>"
    have it: "bench_iter e buffer bs B s = Inr s1"
      unfolding s1_def using less.prems(1) True H by (intro bench_iter_ok) simp_all
    have w1: "benchWritten s1 = benchWritten s + min B (bs - benchWritten s)"
      by (simp add: s1_def)
    have p: "0 \<le> benchWritten s1" "benchWritten s1 \<le> bs" "benchWritten s < benchWritten s1"
      using less.prems True H(2) by (simp_all add: w1)
    have "nat (bs - benchWritten s1) < nat (bs - benchWritten s)" using p True by simp
    from less.hyps [OF this p(1,2)]
    obtain s' where s': "bench_loop e buffer bs B s1 = Some (Inr s')" "benchWritten s' = bs"
      by blast
    have "bench_loop e buffer bs B s = bench_loop e buffer bs B s1"
      using True it by (subst bench_loop.simps) simp
    then show ?thesis using s' by simp
  qed
qed

lemma benchVolume_range:
  assumes "0 \<le> d" "d < 2 ^ 63" "0 < B" "B < 2 ^ 62"
  shows "0 < benchVolume d B" "benchVolume d B < 2 ^ 63" "2 * B \<le> benchVolume d B \<or> benchVolume d B = 10737418240"
proof -
  have m: "mul64 B 2 = 2 * B" using assms by (simp add: mul64_def wrap64_id)
  have m2: "mul64 10737418240 2 = 21474836480" by (simp add: mul64_def wrap64_def)
  have g: "go_div d 4 = d div 4" using assms by (simp add: go_div_nonneg)
  have q: "d div 4 \<le> d" using assms by simp
  have v: "benchVolume d B =
             (if d < 21474836480 then (if d div 4 < 2 * B then 2 * B else d div 4) else 10737418240)"
    by (simp add: benchVolume_def Let_def m g m2)
  show "0 < benchVolume d B" using assms by (simp add: v)
  show "benchVolume d B < 2 ^ 63" using assms q by (simp add: v)
  show "2 * B \<le> benchVolume d B \<or> benchVolume d B = 10737418240" by (simp add: v)
qed

lemma finish_sync:
  "finish (e\<lparr>sync_fails := True\<rparr>) sz k s =
     (finish (e\<lparr>sync_fails := False\<rparr>) sz k s)
       \<lparr>trace := trace (finish (e\<lparr>sync_fails := False\<rparr>) sz k s) @ [Warn FinalSyncFailed]\<rparr>"
  by (simp add: finish_def Let_def)

section \<open>The aligned buffer\<close>

text \<open>
  Claim C9. For a buffer size that is positive (in particular for every size of at least
  4096), the allocation both passes perform, \<open>allocAlignedBuffer\<close> applied to the rounded
  size, returns a region whose start address is a multiple of 4096: the start is the address
  of the over-allocated array plus the offset \<open>(4096 - address mod 4096) mod 4096\<close>. The
  length of the region is the size rounded down to a multiple of 4096, and at least 4096.
  The address is the non-negative integer the source computes from the pointer, and the
  over-allocation of 4096 bytes must be within what the allocator grants.
\<close>

theorem allocAlignedBuffer_aligned:
  assumes "0 < bufferSize" and "bufferSize < 2 ^ 63" and "0 \<le> addr"
    and "alignedBufferSize bufferSize + 4096 \<le> limit" and "limit < 2 ^ 63"
  shows "allocAlignedBuffer limit addr (alignedBufferSize bufferSize) =
           Inr \<lparr>base = addr + (4096 - addr mod 4096) mod 4096,
                len = max 4096 (bufferSize div 4096 * 4096),
                cap = max 4096 (bufferSize div 4096 * 4096) + 4096
                        - (4096 - addr mod 4096) mod 4096\<rparr> \<and>
         (addr + (4096 - addr mod 4096) mod 4096) mod 4096 = 0 \<and>
         max 4096 (bufferSize div 4096 * 4096) mod 4096 = 0"
proof -
  define n where "n = alignedBufferSize bufferSize"
  have a: "n = max 4096 (bufferSize div 4096 * 4096)"
    unfolding n_def using assms(1,2) by (rule alignedBufferSize_pos)
  have ge: "4096 \<le> n" unfolding a by (rule max.cobounded1)
  then have pos: "0 < n" by simp
  have md: "n mod 4096 = 0"
  proof (cases "4096 \<le> bufferSize div 4096 * 4096")
    case True
    then have "n = bufferSize div 4096 * 4096" unfolding a by (rule max_absorb2)
    then show ?thesis by simp
  next
    case False
    then have "n = 4096" unfolding a by (simp only: max_def if_False)
    then show ?thesis by simp
  qed
  have al: "allocAlignedBuffer limit addr n =
          Inr \<lparr>base = addr + (4096 - addr mod 4096) mod 4096, len = n,
               cap = n + 4096 - (4096 - addr mod 4096) mod 4096\<rparr>"
    using assms(3) pos assms(4,5) unfolding n_def [symmetric]
    by (rule allocAlignedBuffer_ok)
  have st: "(addr + (4096 - addr mod 4096) mod 4096) mod 4096 = 0"
    by (rule aligned_start)
  from al st md show ?thesis unfolding a [symmetric] n_def by (intro conjI)
qed

theorem allocAlignedBuffer_aligned_witness:
  "(0::int) < 10000 \<and> (10000::int) < 2 ^ 63 \<and> (0::int) \<le> 824633720933 \<and>
   alignedBufferSize 10000 + 4096 \<le> 2 ^ 48 \<and> (2::int) ^ 48 < 2 ^ 63 \<and>
   allocAlignedBuffer (2 ^ 48) 824633720933 (alignedBufferSize 10000) =
     Inr \<lparr>base = 824633724928, len = 8192, cap = 8293\<rparr> \<and>
   (824633724928::int) mod 4096 = 0 \<and> (8192::int) mod 4096 = 0"
proof -
  have a: "alignedBufferSize 10000 = 8192"
    by (simp add: alignedBufferSize_def go_div_def mul64_def wrap64_def)
  have h: "alignedBufferSize 10000 + 4096 \<le> 2 ^ 48" by (simp add: a)
  show ?thesis
    using allocAlignedBuffer_aligned [of 10000 824633720933 "2 ^ 48", OF _ _ _ h] h
    by simp
qed

section \<open>The wipe loop\<close>

text \<open>
  Claim C1. For every size \<open>sz > 0\<close> and every \<open>bufferSize > 0\<close>, a full wipe
  (\<open>skipFactor = 1\<close>) in which no input or output fails returns without error, and ends
  with \<open>bytesWritten = bytesProcessed = sz\<close>; the sizes of the writes issued by the loop
  add up to \<open>sz\<close>, and nothing is skipped. The run is one in which the buffer is allocated
  and the largest write fits into its capacity.
\<close>

theorem full_wipe_counts:
  assumes "0 < sz" and "sz < 2 ^ 63" and "0 < bufferSize" and "io_succeeds e"
    and "allocAlignedBuffer (mem_limit e) (heap_addr e) (alignedBufferSize bufferSize) = Inr buffer"
    and "min bufferSize sz \<le> cap buffer"
  shows "\<exists>s. wipeDevice e sz bufferSize 1 = Some (Inr s) \<and>
           bytesWritten s = sz \<and> bytesProcessed s = sz \<and>
           sum_list (write_sizes (trace s)) = sz \<and> skip_sizes (trace s) = []"
proof -
  have nov: "sz + bufferSize * (1 - 1) < 2 ^ 63" using assms(2) by simp
  obtain s where s: "wipeDevice e sz bufferSize 1 = Some (Inr (finish e sz 1 s))"
    "wipe_inv sz bufferSize 1 s" "wipe_shape sz bufferSize 1 s" "bytesProcessed s = sz"
    using wipeDevice_run [OF assms(1,3) _ nov assms(4,5,6)] by auto
  have b: "sz \<le> bytesWritten s * 1" using written_bounds(1) [OF assms(3) _ s(3,4)] by simp
  have "bytesWritten s \<le> bytesProcessed s" using s(2) by (simp add: wipe_inv_def)
  with b s(4) have w: "bytesWritten s = sz" by simp
  have sm: "sum_list (write_sizes (trace s)) = bytesWritten s" using s(2) by (simp add: wipe_inv_def)
  have sk: "skip_sizes (trace s) = []" using final_shape(6) [OF s(3,4)] by simp
  show ?thesis
    using s(1,4) w sm sk by (intro exI [of _ "finish e sz 1 s"]) (simp add: finish_fields)
qed

theorem full_wipe_counts_witness:
  "(0::int) < 20000 \<and> (20000::int) < 2 ^ 63 \<and> (0::int) < 4096 \<and> io_succeeds steady_env \<and>
   allocAlignedBuffer (mem_limit steady_env) (heap_addr steady_env) (alignedBufferSize 4096) =
     Inr \<lparr>base = 824633720832, len = 4096, cap = 8192\<rparr> \<and>
   min 4096 20000 \<le> cap \<lparr>base = 824633720832, len = 4096, cap = 8192\<rparr> \<and>
   (\<exists>s. wipeDevice steady_env 20000 4096 1 = Some (Inr s) \<and>
        bytesWritten s = 20000 \<and> bytesProcessed s = 20000 \<and>
        sum_list (write_sizes (trace s)) = 20000 \<and> skip_sizes (trace s) = [])"
  using full_wipe_counts [of 20000 4096 steady_env "\<lparr>base = 824633720832, len = 4096, cap = 8192\<rparr>"]
    steady_io steady_alloc_4096
  by simp

text \<open>
  Claim C2, as stated, for every \<open>skipFactor \<ge> 1\<close>: the loop terminates with
  \<open>bytesProcessed = sz\<close>. It fails when the skip distance overflows: with a buffer of 4
  bytes and a skip factor of \<open>2^62\<close> the product \<open>4 * (2^62 - 1)\<close> wraps to \<open>-4\<close>, every
  skip seeks back over the four bytes just written, and the loop never ends although every
  write and every seek succeeds.
\<close>

theorem wipe_diverges_on_overflow:
  "args_accepted ''/dev/sdx'' 4 4611686018427387904 False \<and>
   wipeDevice steady_env 10 4 4611686018427387904 = None"
proof -
  have acc: "args_accepted ''/dev/sdx'' 4 4611686018427387904 False"
    by (simp add: args_accepted_def in64_def)
  have o: "open_device steady_env = Inr []" by (simp add: open_device_def steady_env_def)
  have a: "allocAlignedBuffer (mem_limit steady_env) (heap_addr steady_env) (alignedBufferSize 4) =
             Inr \<lparr>base = 824633720832, len = 4096, cap = 8192\<rparr>"
    by (rule steady_alloc_small) simp_all
  have "wipe_loop steady_env \<lparr>base = 824633720832, len = 4096, cap = 8192\<rparr> 10 4
          4611686018427387904 (init_wstate steady_env []) = None"
  proof (rule ccontr)
    assume "wipe_loop steady_env \<lparr>base = 824633720832, len = 4096, cap = 8192\<rparr> 10 4
          4611686018427387904 (init_wstate steady_env []) \<noteq> None"
    then obtain y where "wipe_loop steady_env \<lparr>base = 824633720832, len = 4096, cap = 8192\<rparr> 10 4
          4611686018427387904 (init_wstate steady_env []) = Some y" by auto
    from cycle_never_returns [OF this] show False by (simp add: init_wstate_def)
  qed
  then show ?thesis using acc by (simp add: wipeDevice_def o a)
qed

text \<open>
  Claim C2, amended: for every \<open>sz > 0\<close>, \<open>bufferSize > 0\<close> and \<open>skipFactor \<ge> 1\<close> such that
  \<open>sz + bufferSize * (skipFactor - 1)\<close> is below \<open>2^63\<close>, a run in which no input or output
  fails returns, and ends with \<open>bytesProcessed = sz\<close>. After any number of writes and seeks
  the bytes processed are at most \<open>sz\<close>, and strictly fewer until the last of them, so the
  loop ends exactly when the count reaches \<open>sz\<close>. Every write has the size
  \<open>min bufferSize remaining\<close> and every skip the size
  \<open>min (bufferSize * (skipFactor - 1)) remaining\<close>.
\<close>

theorem processed_never_exceeds_size:
  assumes "0 < sz" and "0 < bufferSize" and "1 \<le> skipFactor"
    and "sz + bufferSize * (skipFactor - 1) < 2 ^ 63" and "io_succeeds e"
    and "allocAlignedBuffer (mem_limit e) (heap_addr e) (alignedBufferSize bufferSize) = Inr buffer"
    and "min bufferSize sz \<le> cap buffer"
  shows "\<exists>s. wipeDevice e sz bufferSize skipFactor = Some (Inr s) \<and>
           bytesProcessed s = sz \<and>
           sum_list (io_sizes (trace s)) = sz \<and>
           (\<forall>n. sum_list (take n (io_sizes (trace s))) \<le> sz) \<and>
           (\<forall>n < length (io_sizes (trace s)). sum_list (take n (io_sizes (trace s))) < sz) \<and>
           well_clamped sz bufferSize skipFactor 0 (trace s)"
proof -
  obtain s where s: "wipeDevice e sz bufferSize skipFactor = Some (Inr (finish e sz skipFactor s))"
    "wipe_inv sz bufferSize skipFactor s" "bytesProcessed s = sz"
    using wipeDevice_run [OF assms] by auto
  define xs where "xs = io_sizes (trace s)"
  have pos: "\<forall>x \<in> set xs. 0 < x" and tot: "sum_list xs = sz"
    and wc: "well_clamped sz bufferSize skipFactor 0 (trace s)"
    using s(2,3) by (simp_all add: wipe_inv_def xs_def)
  have le: "\<forall>n. sum_list (take n xs) \<le> sz"
    using prefix_sum_le [OF pos] tot by simp
  have less: "\<forall>n < length xs. sum_list (take n xs) < sz"
    using prefix_sum_less [OF pos] tot by simp
  show ?thesis
    using s(1,3) tot le less wc
    by (intro exI [of _ "finish e sz skipFactor s"]) (simp add: finish_fields xs_def)
qed

theorem processed_never_exceeds_size_witness:
  "(0::int) < 100000 \<and> (0::int) < 4096 \<and> (1::int) \<le> 5 \<and>
   (100000::int) + 4096 * (5 - 1) < 2 ^ 63 \<and> io_succeeds steady_env \<and>
   allocAlignedBuffer (mem_limit steady_env) (heap_addr steady_env) (alignedBufferSize 4096) =
     Inr \<lparr>base = 824633720832, len = 4096, cap = 8192\<rparr> \<and>
   min 4096 100000 \<le> cap \<lparr>base = 824633720832, len = 4096, cap = 8192\<rparr> \<and>
   (\<exists>s. wipeDevice steady_env 100000 4096 5 = Some (Inr s) \<and>
        bytesProcessed s = 100000 \<and>
        sum_list (io_sizes (trace s)) = 100000 \<and>
        (\<forall>n. sum_list (take n (io_sizes (trace s))) \<le> 100000) \<and>
        (\<forall>n < length (io_sizes (trace s)). sum_list (take n (io_sizes (trace s))) < 100000) \<and>
        well_clamped 100000 4096 5 0 (trace s))"
  using processed_never_exceeds_size
          [of 100000 4096 5 steady_env "\<lparr>base = 824633720832, len = 4096, cap = 8192\<rparr>"]
    steady_io steady_alloc_4096
  by simp

text \<open>
  Claim C3, as stated, for every \<open>skipFactor > 1\<close>: \<open>bytesWritten \<le> bytesProcessed = sz\<close>.
  It fails when the skip distance overflows: with a buffer of 3 bytes and the skip factor
  6148914691236517206 the product \<open>3 * 6148914691236517205 = 2^64 - 1\<close> wraps to \<open>-1\<close>,
  every skip seeks one byte back, and the run ends with 14 bytes written to a device of 10.
\<close>

theorem quick_wipe_overflow_overwrites:
  "args_accepted ''/dev/sdx'' 3 6148914691236517206 False \<and>
   wipeDevice steady_env 10 3 6148914691236517206 =
     Some (Inr \<lparr>bytesWritten = 14, bytesProcessed = 10, lastUpdateTime = 0,
          lastUpdateBytes = 0, smoothedSpeed = 0, pos = 10, iter = 5,
          trace =
            [Wrote 3, Skipped (- 1), Wrote 3, Skipped (- 1), Wrote 3,
             Skipped (- 1), Wrote 3, Skipped (- 1), Wrote 2,
             Summary 10 (Finite (5000 / 3)) (Some (14, Finite 140))]\<rparr>)"
  by (simp add: args_accepted_def in64_def steady_env_def run_defs machine_defs wipe_loop.simps)

text \<open>
  Claim C3, amended: for every \<open>skipFactor > 1\<close> such that
  \<open>sz + bufferSize * (skipFactor - 1)\<close> is below \<open>2^63\<close>, a run in which no input or output
  fails ends with \<open>bytesWritten \<le> bytesProcessed = sz\<close>, and \<open>bytesWritten\<close> is within one
  buffer of \<open>sz / skipFactor\<close>: \<open>sz \<le> bytesWritten * skipFactor < sz + bufferSize * skipFactor\<close>.
  For \<open>sz = 100000\<close>, \<open>bufferSize = 4096\<close> and \<open>skipFactor = 5\<close> the five iterations write
  4096 bytes each and skip 16384 bytes, the last skip clamped to 13984; the run ends with
  100000 bytes processed and 20480 written, within one buffer of 20000.
\<close>

theorem quick_wipe_coverage:
  assumes "io_succeeds e"
  shows "(0 < sz \<and> 0 < bufferSize \<and> 1 < skipFactor \<and>
          sz + bufferSize * (skipFactor - 1) < 2 ^ 63 \<and>
          allocAlignedBuffer (mem_limit e) (heap_addr e) (alignedBufferSize bufferSize) = Inr buffer \<and>
          min bufferSize sz \<le> cap buffer \<longrightarrow>
          (\<exists>s. wipeDevice e sz bufferSize skipFactor = Some (Inr s) \<and>
             bytesWritten s \<le> bytesProcessed s \<and> bytesProcessed s = sz \<and>
             sz \<le> bytesWritten s * skipFactor \<and>
             bytesWritten s * skipFactor < sz + bufferSize * skipFactor)) \<and>
         (allocAlignedBuffer (mem_limit e) (heap_addr e) (alignedBufferSize 4096) = Inr buffer' \<and>
          4096 \<le> cap buffer' \<longrightarrow>
          (\<exists>s. wipeDevice e 100000 4096 5 = Some (Inr s) \<and>
             write_sizes (trace s) = [4096, 4096, 4096, 4096, 4096] \<and>
             skip_sizes (trace s) = [16384, 16384, 16384, 16384, 13984] \<and>
             bytesWritten s = 20480 \<and> bytesProcessed s = 100000 \<and>
             \<bar>bytesWritten s - 100000 div 5\<bar> \<le> 4096))"
proof (intro conjI impI)
  assume h: "0 < sz \<and> 0 < bufferSize \<and> 1 < skipFactor \<and>
          sz + bufferSize * (skipFactor - 1) < 2 ^ 63 \<and>
          allocAlignedBuffer (mem_limit e) (heap_addr e) (alignedBufferSize bufferSize) = Inr buffer \<and>
          min bufferSize sz \<le> cap buffer"
  then have k: "1 \<le> skipFactor" by simp
  obtain s where s: "wipeDevice e sz bufferSize skipFactor = Some (Inr (finish e sz skipFactor s))"
    "wipe_inv sz bufferSize skipFactor s" "wipe_shape sz bufferSize skipFactor s"
    "bytesProcessed s = sz"
    using wipeDevice_run [of sz bufferSize skipFactor e buffer] h k assms by auto
  have w: "bytesWritten s \<le> bytesProcessed s" using s(2) by (simp add: wipe_inv_def)
  have b: "sz \<le> bytesWritten s * skipFactor"
    "bytesWritten s * skipFactor < sz + bufferSize * skipFactor"
    using written_bounds [OF _ k s(3,4)] h by simp_all
  show "\<exists>s. wipeDevice e sz bufferSize skipFactor = Some (Inr s) \<and>
             bytesWritten s \<le> bytesProcessed s \<and> bytesProcessed s = sz \<and>
             sz \<le> bytesWritten s * skipFactor \<and>
             bytesWritten s * skipFactor < sz + bufferSize * skipFactor"
    using s(1,4) w b by (intro exI [of _ "finish e sz skipFactor s"]) (simp add: finish_fields)
next
  assume h: "allocAlignedBuffer (mem_limit e) (heap_addr e) (alignedBufferSize 4096) = Inr buffer' \<and>
          4096 \<le> cap buffer'"
  obtain s where s: "wipeDevice e 100000 4096 5 = Some (Inr (finish e 100000 5 s))"
    "wipe_shape 100000 4096 5 s" "bytesProcessed s = 100000"
    using wipeDevice_run [of 100000 4096 5 e buffer'] h assms by auto
  define j where "j = int (iter s) - 1"
  have f: "0 < iter s" "0 < 100000 - 20480 * j" "100000 - 20480 * j \<le> 20480"
    using final_shape(1,2,3) [OF s(2,3)] by (simp_all add: j_def)
  then have j: "j = 4" by linarith
  then have i: "iter s = 5" using f(1) by (simp add: j_def)
  have w: "bytesWritten s = 20480" using final_shape(4) [OF s(2,3)] by (simp add: i)
  have ws: "write_sizes (trace s) = [4096, 4096, 4096, 4096, 4096]"
    using final_shape(5) [OF s(2,3)] by (simp add: i numeral_eq_Suc)
  have ss: "skip_sizes (trace s) = [16384, 16384, 16384, 16384, 13984]"
    using final_shape(6) [OF s(2,3)] by (simp add: i numeral_eq_Suc)
  show "\<exists>s. wipeDevice e 100000 4096 5 = Some (Inr s) \<and>
             write_sizes (trace s) = [4096, 4096, 4096, 4096, 4096] \<and>
             skip_sizes (trace s) = [16384, 16384, 16384, 16384, 13984] \<and>
             bytesWritten s = 20480 \<and> bytesProcessed s = 100000 \<and>
             \<bar>bytesWritten s - 100000 div 5\<bar> \<le> 4096"
    using s(1,3) w ws ss by (intro exI [of _ "finish e 100000 5 s"]) (simp add: finish_fields)
qed

theorem quick_wipe_coverage_witness:
  "io_succeeds steady_env \<and>
   (0::int) < 50000 \<and> (0::int) < 4096 \<and> (1::int) < 3 \<and>
   (50000::int) + 4096 * (3 - 1) < 2 ^ 63 \<and>
   allocAlignedBuffer (mem_limit steady_env) (heap_addr steady_env) (alignedBufferSize 4096) =
     Inr \<lparr>base = 824633720832, len = 4096, cap = 8192\<rparr> \<and>
   min 4096 50000 \<le> cap \<lparr>base = 824633720832, len = 4096, cap = 8192\<rparr> \<and>
   (\<exists>s. wipeDevice steady_env 50000 4096 3 = Some (Inr s) \<and>
        bytesWritten s \<le> bytesProcessed s \<and> bytesProcessed s = 50000 \<and>
        50000 \<le> bytesWritten s * 3 \<and> bytesWritten s * 3 < 50000 + 4096 * 3) \<and>
   (\<exists>s. wipeDevice steady_env 100000 4096 5 = Some (Inr s) \<and>
        write_sizes (trace s) = [4096, 4096, 4096, 4096, 4096] \<and>
        skip_sizes (trace s) = [16384, 16384, 16384, 16384, 13984] \<and>
        bytesWritten s = 20480 \<and> bytesProcessed s = 100000 \<and>
        \<bar>bytesWritten s - 100000 div 5\<bar> \<le> 4096)"
  using quick_wipe_coverage
          [OF steady_io, of 50000 4096 3 "\<lparr>base = 824633720832, len = 4096, cap = 8192\<rparr>"
             "\<lparr>base = 824633720832, len = 4096, cap = 8192\<rparr>"]
    steady_io steady_alloc_4096
  by simp

text \<open>
  Claim C6, as stated: on a device of 20000 bytes with \<open>bufferSize = 4096\<close> and
  \<open>skipFactor = 1\<close> the iterations write 4096 \<times> 4 + 3264 bytes and the final summary
  reports 100% overwritten. On the code the fifth write has 3616 bytes (4096 \<times> 4 + 3264 is
  19648, not 20000), and the summary of a run with \<open>skipFactor = 1\<close> has no coverage
  figure: that part is printed only when \<open>skipFactor > 1\<close>.
\<close>

theorem small_full_wipe_wrong_last_write:
  "wipeDevice steady_env 20000 4096 1 =
     Some (Inr \<lparr>bytesWritten = 20000, bytesProcessed = 20000, lastUpdateTime = 0,
          lastUpdateBytes = 0, smoothedSpeed = 0, pos = 20000, iter = 5,
          trace =
            [Wrote 4096, Wrote 4096, Wrote 4096, Wrote 4096, Wrote 3616,
             Summary 20000 (Finite (10000000 / 3)) None]\<rparr>) \<and>
   (4096 * 4 + 3264 :: int) \<noteq> 20000"
  by (simp add: steady_env_def run_defs machine_defs wipe_loop.simps)

text \<open>
  Claim C6, amended: on a device of 20000 bytes with \<open>bufferSize = 4096\<close> and
  \<open>skipFactor = 1\<close>, when no input or output fails, the five iterations write
  4096 \<times> 4 + 3616 = 20000 bytes in total and skip none; \<open>bytesWritten\<close> equals the size,
  which is 100% of the device, and the final summary reports 20000 bytes processed, without
  a coverage figure.
\<close>

theorem small_full_wipe:
  assumes "io_succeeds e"
    and "allocAlignedBuffer (mem_limit e) (heap_addr e) (alignedBufferSize 4096) = Inr buffer"
    and "4096 \<le> cap buffer"
  shows "\<exists>s. wipeDevice e 20000 4096 1 = Some (Inr s) \<and>
           write_sizes (trace s) = [4096, 4096, 4096, 4096, 3616] \<and>
           sum_list (write_sizes (trace s)) = 20000 \<and>
           skip_sizes (trace s) = [] \<and>
           bytesWritten s = 20000 \<and> bytesProcessed s = 20000 \<and>
           (of_int (bytesWritten s) / of_int 20000 * 100 :: rat) = 100 \<and>
           (\<exists>avg. Summary 20000 avg None \<in> set (trace s))"
proof -
  obtain s where s: "wipeDevice e 20000 4096 1 = Some (Inr (finish e 20000 1 s))"
    "wipe_shape 20000 4096 1 s" "bytesProcessed s = 20000"
    using wipeDevice_run [of 20000 4096 1 e buffer] assms by auto
  define j where "j = int (iter s) - 1"
  have f: "0 < iter s" "0 < 20000 - 4096 * j" "20000 - 4096 * j \<le> 4096"
    using final_shape(1,2,3) [OF s(2,3)] by (simp_all add: j_def)
  then have j: "j = 4" by linarith
  then have i: "iter s = 5" using f(1) by (simp add: j_def)
  have w: "bytesWritten s = 20000" using final_shape(4) [OF s(2,3)] by (simp add: i)
  have ws: "write_sizes (trace s) = [4096, 4096, 4096, 4096, 3616]"
    using final_shape(5) [OF s(2,3)] by (simp add: i numeral_eq_Suc)
  have ss: "skip_sizes (trace s) = []"
    using final_shape(6) [OF s(2,3)] by simp
  have "Summary 20000
          (fdiv (of_int 20000) (seconds (time_sub (now e (Suc (iter s))) (now e 0)))) None
          \<in> set (trace (finish e 20000 1 s))"
    by (simp add: finish_trace s(3))
  then have sm: "\<exists>avg. Summary 20000 avg None \<in> set (trace (finish e 20000 1 s))" ..
  show ?thesis
    using s(1,3) w ws ss sm
    by (intro exI [of _ "finish e 20000 1 s"]) (simp add: finish_fields)
qed

theorem small_full_wipe_witness:
  "io_succeeds slow_env \<and>
   allocAlignedBuffer (mem_limit slow_env) (heap_addr slow_env) (alignedBufferSize 4096) =
     Inr \<lparr>base = 824633720832, len = 4096, cap = 8192\<rparr> \<and>
   4096 \<le> cap \<lparr>base = 824633720832, len = 4096, cap = 8192\<rparr> \<and>
   (\<exists>s. wipeDevice slow_env 20000 4096 1 = Some (Inr s) \<and>
        write_sizes (trace s) = [4096, 4096, 4096, 4096, 3616] \<and>
        sum_list (write_sizes (trace s)) = 20000 \<and>
        skip_sizes (trace s) = [] \<and>
        bytesWritten s = 20000 \<and> bytesProcessed s = 20000 \<and>
        (of_int (bytesWritten s) / of_int 20000 * 100 :: rat) = 100 \<and>
        (\<exists>avg. Summary 20000 avg None \<in> set (trace s)))"
  using small_full_wipe [OF slow_io slow_alloc_4096] slow_io slow_alloc_4096
  by simp

section \<open>Progress and ETA\<close>

text \<open>
  Claim C5, as stated: when the smoothed throughput is zero at a progress update, the ETA
  is reported as unknown and not computed by the division. The code has no such case: the
  ETA is always the quotient. With a buffer size of 0, which the command line accepts, the
  first iteration writes nothing; after a second the progress line is printed with a
  smoothed speed of 0, and the ETA is \<open>1 / 0\<close>, the floating-point infinity.
\<close>

theorem eta_divides_by_zero:
  "args_accepted ''/dev/sdx'' 0 1 False \<and>
   open_device slow_env = Inr [] \<and>
   allocAlignedBuffer (mem_limit slow_env) (heap_addr slow_env) (alignedBufferSize 0) =
     Inr \<lparr>base = 824633720832, len = 4096, cap = 8192\<rparr> \<and>
   wipe_iter slow_env \<lparr>base = 824633720832, len = 4096, cap = 8192\<rparr> 1 0 1
       (init_wstate slow_env []) =
     Inr \<lparr>bytesWritten = 0, bytesProcessed = 0, lastUpdateTime = 1000000000,
          lastUpdateBytes = 0, smoothedSpeed = 0, pos = 0, iter = 1,
          trace = [Wrote 0, Progress 0 0 0 PosInf None]\<rparr> \<and>
   fdiv 1 0 = PosInf"
  by (simp add: args_accepted_def in64_def slow_env_def steady_env_def run_defs machine_defs)

text \<open>
  Claim C5, amended: the ETA of every progress line is the quotient of the remaining bytes
  by the smoothed throughput; there is no unknown value. For every \<open>bufferSize > 0\<close> and
  \<open>skipFactor \<ge> 1\<close> whose skip distance does not overflow, in a run in which no input or
  output fails, the smoothed throughput is positive at every progress line, so the divisor
  is never zero.
\<close>

theorem eta_divisor_never_zero:
  assumes "0 < sz" and "0 < bufferSize" and "1 \<le> skipFactor"
    and "sz + bufferSize * (skipFactor - 1) < 2 ^ 63" and "io_succeeds e"
    and "allocAlignedBuffer (mem_limit e) (heap_addr e) (alignedBufferSize bufferSize) = Inr buffer"
    and "min bufferSize sz \<le> cap buffer"
  shows "(\<exists>s. wipeDevice e sz bufferSize skipFactor = Some (Inr s) \<and>
            (\<forall>ev \<in> set (trace s). eta_divisor_positive ev)) \<and>
         (\<forall>t s. updateInterval \<le> time_sub t (lastUpdateTime s) \<longrightarrow>
            (\<exists>pc inst cov.
               trace (progressUpdate sz skipFactor t s) =
                 trace s @
                 [Progress pc inst (smoothedSpeed (progressUpdate sz skipFactor t s))
                    (fdiv (of_int (sub64 sz (bytesProcessed s)))
                       (smoothedSpeed (progressUpdate sz skipFactor t s))) cov]))"
proof (intro conjI allI impI)
  obtain s where s: "wipeDevice e sz bufferSize skipFactor = Some (Inr (finish e sz skipFactor s))"
    "wipe_inv sz bufferSize skipFactor s"
    using wipeDevice_run [OF assms] by auto
  have "\<forall>ev \<in> set (trace (finish e sz skipFactor s)). eta_divisor_positive ev"
    using s(2) by (simp only: finish_eta) (simp add: wipe_inv_def)
  then show "\<exists>s. wipeDevice e sz bufferSize skipFactor = Some (Inr s) \<and>
            (\<forall>ev \<in> set (trace s). eta_divisor_positive ev)"
    using s(1) by (intro exI [of _ "finish e sz skipFactor s"] conjI)
next
  fix t and s :: wstate
  assume "updateInterval \<le> time_sub t (lastUpdateTime s)"
  then show "\<exists>pc inst cov.
               trace (progressUpdate sz skipFactor t s) =
                 trace s @
                 [Progress pc inst (smoothedSpeed (progressUpdate sz skipFactor t s))
                    (fdiv (of_int (sub64 sz (bytesProcessed s)))
                       (smoothedSpeed (progressUpdate sz skipFactor t s))) cov]"
    by (simp add: progressUpdate_def Let_def)
qed

theorem eta_divisor_never_zero_witness:
  "(0::int) < 100000 \<and> (0::int) < 4096 \<and> (1::int) \<le> 5 \<and>
   (100000::int) + 4096 * (5 - 1) < 2 ^ 63 \<and> io_succeeds slow_env \<and>
   allocAlignedBuffer (mem_limit slow_env) (heap_addr slow_env) (alignedBufferSize 4096) =
     Inr \<lparr>base = 824633720832, len = 4096, cap = 8192\<rparr> \<and>
   min 4096 100000 \<le> cap \<lparr>base = 824633720832, len = 4096, cap = 8192\<rparr> \<and>
   (\<exists>s. wipeDevice slow_env 100000 4096 5 = Some (Inr s) \<and>
        (\<forall>ev \<in> set (trace s). eta_divisor_positive ev)) \<and>
   wipeDevice slow_env 100000 4096 5 =
     Some (Inr \<lparr>bytesWritten = 20480, bytesProcessed = 100000,
          lastUpdateTime = 5000000000, lastUpdateBytes = 100000,
          smoothedSpeed = 20000, pos = 100000, iter = 5,
          trace =
            [Wrote 4096, Skipped 16384,
             Progress (512 / 25) 20480 20480 (Finite (497 / 128)) (Some (512 / 125)),
             Wrote 4096, Skipped 16384,
             Progress (1024 / 25) 20480 20480 (Finite (369 / 128)) (Some (1024 / 125)),
             Wrote 4096, Skipped 16384,
             Progress (1536 / 25) 20480 20480 (Finite (241 / 128)) (Some (1536 / 125)),
             Wrote 4096, Skipped 16384,
             Progress (2048 / 25) 20480 20480 (Finite (113 / 128)) (Some (2048 / 125)),
             Wrote 4096, Skipped 13984,
             Progress 100 18080 20000 (Finite 0) (Some (512 / 25)),
             Summary 100000 (Finite (50000 / 3)) (Some (20480, Finite (512 / 25)))]\<rparr>)"
proof -
  have run: "wipeDevice slow_env 100000 4096 5 =
     Some (Inr \<lparr>bytesWritten = 20480, bytesProcessed = 100000,
          lastUpdateTime = 5000000000, lastUpdateBytes = 100000,
          smoothedSpeed = 20000, pos = 100000, iter = 5,
          trace =
            [Wrote 4096, Skipped 16384,
             Progress (512 / 25) 20480 20480 (Finite (497 / 128)) (Some (512 / 125)),
             Wrote 4096, Skipped 16384,
             Progress (1024 / 25) 20480 20480 (Finite (369 / 128)) (Some (1024 / 125)),
             Wrote 4096, Skipped 16384,
             Progress (1536 / 25) 20480 20480 (Finite (241 / 128)) (Some (1536 / 125)),
             Wrote 4096, Skipped 16384,
             Progress (2048 / 25) 20480 20480 (Finite (113 / 128)) (Some (2048 / 125)),
             Wrote 4096, Skipped 13984,
             Progress 100 18080 20000 (Finite 0) (Some (512 / 25)),
             Summary 100000 (Finite (50000 / 3)) (Some (20480, Finite (512 / 25)))]\<rparr>)"
    by (simp add: slow_env_def steady_env_def run_defs machine_defs wipe_loop.simps)
  have "\<exists>s. wipeDevice slow_env 100000 4096 5 = Some (Inr s) \<and>
        (\<forall>ev \<in> set (trace s). eta_divisor_positive ev)"
    using eta_divisor_never_zero [of 100000 4096 5 slow_env, OF _ _ _ _ slow_io slow_alloc_4096,
            THEN conjunct1]
    by simp
  then show ?thesis using slow_io slow_alloc_4096 run by simp
qed

text \<open>
  Claim C10. The smoothed throughput is the exponential moving average
  \<open>smoothed * (1 - \<alpha>) + instantaneous * \<alpha>\<close> with \<open>\<alpha> = 0.2\<close>, and it is seeded with the
  instantaneous speed of the first measurement (whenever the smoothed speed is 0). For the
  samples \<open>(t = 0, b = 0)\<close>, \<open>(t = 1 s, b = 1000)\<close>, \<open>(t = 2 s, b = 3000)\<close> the
  instantaneous speeds are 1000 and 2000, and the smoothed speed after the second
  measurement is \<open>1000 * 0.8 + 2000 * 0.2 = 1200\<close>. Floating-point numbers are taken as
  exact rationals.
\<close>

theorem smoothed_speed_is_ema:
  "(updateInterval \<le> time_sub t (lastUpdateTime s) \<longrightarrow>
      smoothedSpeed (progressUpdate sz k t s) =
        (let instantSpeed = of_int (sub64 (bytesProcessed s) (lastUpdateBytes s)) /
                              seconds (time_sub t (lastUpdateTime s))
         in if smoothedSpeed s = 0 then instantSpeed
            else smoothedSpeed s * (1 - smoothingFactor) + instantSpeed * smoothingFactor)) \<and>
   smoothingFactor = 0.2 \<and>
   progressUpdate 10000 1 1000000000
      \<lparr>bytesWritten = 1000, bytesProcessed = 1000, lastUpdateTime = 0, lastUpdateBytes = 0,
       smoothedSpeed = 0, pos = 1000, iter = 1, trace = []\<rparr> =
      \<lparr>bytesWritten = 1000, bytesProcessed = 1000, lastUpdateTime = 1000000000,
       lastUpdateBytes = 1000, smoothedSpeed = 1000, pos = 1000, iter = 1,
       trace = [Progress 10 1000 1000 (Finite 9) None]\<rparr> \<and>
   progressUpdate 10000 1 2000000000
      \<lparr>bytesWritten = 3000, bytesProcessed = 3000, lastUpdateTime = 1000000000,
       lastUpdateBytes = 1000, smoothedSpeed = 1000, pos = 3000, iter = 2,
       trace = [Progress 10 1000 1000 (Finite 9) None]\<rparr> =
      \<lparr>bytesWritten = 3000, bytesProcessed = 3000, lastUpdateTime = 2000000000,
       lastUpdateBytes = 3000, smoothedSpeed = 1200, pos = 3000, iter = 2,
       trace = [Progress 10 1000 1000 (Finite 9) None,
                Progress 30 2000 1200 (Finite (35 / 6)) None]\<rparr> \<and>
   (1200 :: rat) = 1000 * 0.8 + 2000 * 0.2"
proof (intro conjI impI)
  assume "updateInterval \<le> time_sub t (lastUpdateTime s)"
  then show "smoothedSpeed (progressUpdate sz k t s) =
        (let instantSpeed = of_int (sub64 (bytesProcessed s) (lastUpdateBytes s)) /
                              seconds (time_sub t (lastUpdateTime s))
         in if smoothedSpeed s = 0 then instantSpeed
            else smoothedSpeed s * (1 - smoothingFactor) + instantSpeed * smoothingFactor)"
    by (simp add: progressUpdate_def Let_def)
qed (simp_all add: smoothingFactor_def progressUpdate_def updateInterval_def time_sub_def
       seconds_def fdiv_def machine_defs Let_def)

theorem smoothed_speed_is_ema_witness:
  "updateInterval \<le> time_sub 2000000000 (lastUpdateTime
      \<lparr>bytesWritten = 3000, bytesProcessed = 3000, lastUpdateTime = 1000000000,
       lastUpdateBytes = 1000, smoothedSpeed = 1000, pos = 3000, iter = 2, trace = []\<rparr>) \<and>
   smoothedSpeed (progressUpdate 10000 1 2000000000
      \<lparr>bytesWritten = 3000, bytesProcessed = 3000, lastUpdateTime = 1000000000,
       lastUpdateBytes = 1000, smoothedSpeed = 1000, pos = 3000, iter = 2, trace = []\<rparr>) = 1200 \<and>
   wipeDevice
     (steady_env\<lparr>now := (\<lambda>k. if k = 0 then 0 else if k = 1 then 1000000000
                               else if k = 2 then 1500000000 else 2000000000)\<rparr>)
     3000 1000 1 =
     Some (Inr \<lparr>bytesWritten = 3000, bytesProcessed = 3000, lastUpdateTime = 2000000000,
          lastUpdateBytes = 3000, smoothedSpeed = 1200, pos = 3000, iter = 3,
          trace =
            [Wrote 1000, Progress (100 / 3) 1000 1000 (Finite 2) None,
             Wrote 1000,
             Wrote 1000, Progress 100 2000 1200 (Finite 0) None,
             Summary 3000 (Finite 1500) None]\<rparr>)"
proof -
  have h: "updateInterval \<le> time_sub 2000000000 (lastUpdateTime
      \<lparr>bytesWritten = 3000, bytesProcessed = 3000, lastUpdateTime = 1000000000,
       lastUpdateBytes = 1000, smoothedSpeed = 1000, pos = 3000, iter = 2, trace = []\<rparr>)"
    by (simp add: updateInterval_def time_sub_def)
  have "smoothedSpeed (progressUpdate 10000 1 2000000000
      \<lparr>bytesWritten = 3000, bytesProcessed = 3000, lastUpdateTime = 1000000000,
       lastUpdateBytes = 1000, smoothedSpeed = 1000, pos = 3000, iter = 2, trace = []\<rparr>) = 1200"
    using smoothed_speed_is_ema [THEN conjunct1, THEN mp, OF h, of 10000 1]
    by (simp add: smoothingFactor_def time_sub_def seconds_def machine_defs)
  moreover have "wipeDevice
     (steady_env\<lparr>now := (\<lambda>k. if k = 0 then 0 else if k = 1 then 1000000000
                               else if k = 2 then 1500000000 else 2000000000)\<rparr>)
     3000 1000 1 =
     Some (Inr \<lparr>bytesWritten = 3000, bytesProcessed = 3000, lastUpdateTime = 2000000000,
          lastUpdateBytes = 3000, smoothedSpeed = 1200, pos = 3000, iter = 3,
          trace =
            [Wrote 1000, Progress (100 / 3) 1000 1000 (Finite 2) None,
             Wrote 1000,
             Wrote 1000, Progress 100 2000 1200 (Finite 0) None,
             Summary 3000 (Finite 1500) None]\<rparr>)"
    by (simp add: steady_env_def run_defs machine_defs wipe_loop.simps)
  ultimately show ?thesis using h by simp
qed

section \<open>Slices and the buffer\<close>

text \<open>
  Claim C4 says that the write size never exceeds the length of the buffer, so that
  \<open>buffer[:writeSize]\<close> stays in range. The code computes the write size from
  \<open>bufferSize\<close> and the length of the buffer from the rounded size. With
  \<open>bufferSize = 5000\<close> the buffer has 4096 bytes and each write takes 5000: the slice runs
  904 bytes past the length of the buffer, into the rest of the over-allocated array, which
  \<open>rand.Read\<close> never fills. When the array starts one byte after a multiple of 4096 the
  capacity left is 4097 bytes, and both passes panic with a slice bound out of range.
\<close>

theorem write_exceeds_buffer_length:
  "args_accepted ''/dev/sdx'' 5000 1 False \<and>
   allocAlignedBuffer (mem_limit steady_env) (heap_addr steady_env) (alignedBufferSize 5000) =
     Inr \<lparr>base = 824633720832, len = 4096, cap = 8192\<rparr> \<and>
   wipeDevice steady_env 10000 5000 1 =
     Some (Inr \<lparr>bytesWritten = 10000, bytesProcessed = 10000, lastUpdateTime = 0,
          lastUpdateBytes = 0, smoothedSpeed = 0, pos = 10000, iter = 2,
          trace = [Wrote 5000, Wrote 5000, Summary 10000 (Finite (10000000 / 3)) None]\<rparr>) \<and>
   allocAlignedBuffer (mem_limit steady_env) 824633720833 (alignedBufferSize 5000) =
     Inr \<lparr>base = 824633724928, len = 4096, cap = 4097\<rparr> \<and>
   wipeDevice (steady_env\<lparr>heap_addr := 824633720833\<rparr>) 10000 5000 1 =
     Some (Inl PanicSliceBounds) \<and>
   benchmarkWriteSpeed (steady_env\<lparr>heap_addr := 824633720833\<rparr>) 5000 =
     Some (Inl PanicSliceBounds)"
  by (simp add: args_accepted_def in64_def steady_env_def run_defs bench_defs machine_defs
        wipe_loop.simps bench_loop.simps)

section \<open>Sync failures and the benchmark\<close>

text \<open>
  Claim C7, as stated: a failing final sync is only a warning in every pass, the benchmark
  included. In the benchmark a failing sync makes the function return the error
  \<open>benchmark sync failed\<close>.
\<close>

theorem benchmark_sync_failure_is_fatal:
  "benchmarkWriteSpeed (steady_env\<lparr>sync_fails := True\<rparr>) 4096 = Some (Inl BenchmarkSyncFailed)"
  by (simp add: steady_env_def bench_defs machine_defs bench_loop.simps)

text \<open>
  Claim C7, amended. In the wipe, a failing final sync changes nothing but the output: the
  pass that returns without error when the sync succeeds returns without error and with the
  same counters when it fails, with the warning appended. In the benchmark, the run that
  succeeds when the sync succeeds returns the error \<open>BenchmarkSyncFailed\<close> when it fails.
\<close>

theorem sync_failure_treatment:
  "(wipeDevice (e\<lparr>sync_fails := False\<rparr>) sz bufferSize skipFactor = Some (Inr r) \<longrightarrow>
      wipeDevice (e\<lparr>sync_fails := True\<rparr>) sz bufferSize skipFactor =
        Some (Inr (r\<lparr>trace := trace r @ [Warn FinalSyncFailed]\<rparr>))) \<and>
   (benchmarkWriteSpeed (e\<lparr>sync_fails := False\<rparr>) bufferSize = Some (Inr b) \<longrightarrow>
      benchmarkWriteSpeed (e\<lparr>sync_fails := True\<rparr>) bufferSize = Some (Inl BenchmarkSyncFailed))"
proof (intro conjI impI)
  assume a: "wipeDevice (e\<lparr>sync_fails := False\<rparr>) sz bufferSize skipFactor = Some (Inr r)"
  have i: "init_wstate (e\<lparr>sync_fails := x\<rparr>) ws = init_wstate e ws" for x ws
    by (simp add: init_wstate_def)
  show "wipeDevice (e\<lparr>sync_fails := True\<rparr>) sz bufferSize skipFactor =
        Some (Inr (r\<lparr>trace := trace r @ [Warn FinalSyncFailed]\<rparr>))"
    using a
    by (auto simp: wipeDevice_def open_device_def wipe_loop_sync i finish_sync
          split: sum.splits option.splits if_splits)
next
  assume a: "benchmarkWriteSpeed (e\<lparr>sync_fails := False\<rparr>) bufferSize = Some (Inr b)"
  show "benchmarkWriteSpeed (e\<lparr>sync_fails := True\<rparr>) bufferSize = Some (Inl BenchmarkSyncFailed)"
    using a
    by (auto simp: benchmarkWriteSpeed_def open_device_def getDeviceSize_def bench_loop_sync
          file_seek_set_def Let_def split: sum.splits option.splits if_splits)
qed

theorem sync_failure_treatment_witness:
  "wipeDevice (steady_env\<lparr>sync_fails := False\<rparr>) 20000 4096 1 =
     Some (Inr \<lparr>bytesWritten = 20000, bytesProcessed = 20000, lastUpdateTime = 0,
          lastUpdateBytes = 0, smoothedSpeed = 0, pos = 20000, iter = 5,
          trace =
            [Wrote 4096, Wrote 4096, Wrote 4096, Wrote 4096, Wrote 3616,
             Summary 20000 (Finite (10000000 / 3)) None]\<rparr>) \<and>
   wipeDevice (steady_env\<lparr>sync_fails := True\<rparr>) 20000 4096 1 =
     Some (Inr \<lparr>bytesWritten = 20000, bytesProcessed = 20000, lastUpdateTime = 0,
          lastUpdateBytes = 0, smoothedSpeed = 0, pos = 20000, iter = 5,
          trace =
            [Wrote 4096, Wrote 4096, Wrote 4096, Wrote 4096, Wrote 3616,
             Summary 20000 (Finite (10000000 / 3)) None, Warn FinalSyncFailed]\<rparr>) \<and>
   benchmarkWriteSpeed (steady_env\<lparr>sync_fails := False\<rparr>) 4096 =
     Some (Inr \<lparr>written = 8192, writeSpeed = Finite (8192000 / 3), originalPos = 0,
          finalPos = 0, printed = [Wrote 4096, Wrote 4096]\<rparr>) \<and>
   benchmarkWriteSpeed (steady_env\<lparr>sync_fails := True\<rparr>) 4096 = Some (Inl BenchmarkSyncFailed)"
proof -
  have e: "steady_env\<lparr>sync_fails := False\<rparr> = steady_env" by (simp add: steady_env_def)
  have w: "wipeDevice (steady_env\<lparr>sync_fails := False\<rparr>) 20000 4096 1 =
     Some (Inr \<lparr>bytesWritten = 20000, bytesProcessed = 20000, lastUpdateTime = 0,
          lastUpdateBytes = 0, smoothedSpeed = 0, pos = 20000, iter = 5,
          trace =
            [Wrote 4096, Wrote 4096, Wrote 4096, Wrote 4096, Wrote 3616,
             Summary 20000 (Finite (10000000 / 3)) None]\<rparr>)"
    unfolding e by (simp add: steady_env_def run_defs machine_defs wipe_loop.simps)
  have b: "benchmarkWriteSpeed (steady_env\<lparr>sync_fails := False\<rparr>) 4096 =
     Some (Inr \<lparr>written = 8192, writeSpeed = Finite (8192000 / 3), originalPos = 0,
          finalPos = 0, printed = [Wrote 4096, Wrote 4096]\<rparr>)"
    unfolding e by (rule steady_benchmark)
  show ?thesis
    using sync_failure_treatment [THEN conjunct1, THEN mp, OF w]
      sync_failure_treatment [THEN conjunct2, THEN mp, OF b] w b
    by simp
qed

text \<open>
  Claim C8. A benchmark that returns without error has put the file offset back to the
  value recorded before the first write, whatever the volume written; this includes the
  reduced volume of a small device. When no input or output fails the benchmark does
  return, having written exactly the benchmark volume. A run whose writes complete and
  whose restoring seek fails returns the error \<open>RestorePositionFailed\<close>, which is none of
  the other errors.
\<close>

theorem benchmark_restores_offset:
  "(benchmarkWriteSpeed e bufferSize = Some (Inr b) \<longrightarrow>
      finalPos b = originalPos b \<and> originalPos b = 0) \<and>
   (0 < bufferSize \<and> bufferSize < 2 ^ 62 \<and> 0 \<le> device_size e \<and> device_size e < 2 ^ 63 \<and>
    io_succeeds e \<and> \<not> probe_fails e \<and> \<not> getpos_fails e \<and> \<not> restore_fails e \<and>
    \<not> sync_fails e \<and>
    allocAlignedBuffer (mem_limit e) (heap_addr e) (alignedBufferSize bufferSize) = Inr buffer \<and>
    bufferSize \<le> cap buffer \<longrightarrow>
      (\<exists>b'. benchmarkWriteSpeed e bufferSize = Some (Inr b') \<and>
            written b' = benchVolume (device_size e) bufferSize \<and>
            finalPos b' = originalPos b')) \<and>
   (benchmarkWriteSpeed (e\<lparr>restore_fails := False\<rparr>) bufferSize = Some (Inr b'') \<longrightarrow>
      benchmarkWriteSpeed (e\<lparr>restore_fails := True\<rparr>) bufferSize =
        Some (Inl RestorePositionFailed)) \<and>
   RestorePositionFailed \<notin> {OpenFailed, ProbeFailed, RandFailed, WriteFailed, SeekFailed,
      BenchmarkSyncFailed, PanicSliceBounds, PanicIndex, PanicMakeLen}"
proof (intro conjI impI)
  assume "benchmarkWriteSpeed e bufferSize = Some (Inr b)"
  then show "finalPos b = originalPos b" "originalPos b = 0"
    by (auto simp: benchmarkWriteSpeed_def file_seek_set_def Let_def
          split: sum.splits option.splits if_splits)
next
  assume h: "0 < bufferSize \<and> bufferSize < 2 ^ 62 \<and> 0 \<le> device_size e \<and> device_size e < 2 ^ 63 \<and>
    io_succeeds e \<and> \<not> probe_fails e \<and> \<not> getpos_fails e \<and> \<not> restore_fails e \<and>
    \<not> sync_fails e \<and>
    allocAlignedBuffer (mem_limit e) (heap_addr e) (alignedBufferSize bufferSize) = Inr buffer \<and>
    bufferSize \<le> cap buffer"
  define bs where "bs = benchVolume (device_size e) bufferSize"
  have v: "0 < bs" "bs < 2 ^ 63"
    using benchVolume_range(1,2) [of "device_size e" bufferSize] h by (simp_all add: bs_def)
  have "\<exists>ws. open_device e = Inr ws"
    using h by (cases "direct_open_fails e") (simp_all add: io_succeeds_def open_device_def)
  then obtain ws where ws: "open_device e = Inr ws" ..
  have io: "\<forall>i. \<not> rand_fails e i" "\<forall>i. \<not> write_fails e i" "\<not> probe_fails e"
    "\<not> getpos_fails e" "\<not> restore_fails e"
    using h by (simp_all add: io_succeeds_def)
  have "min bufferSize bs \<le> bufferSize" by (rule min.cobounded1)
  then have fit: "min bufferSize bs \<le> cap buffer" using h by linarith
  obtain s where s: "bench_loop e buffer bs bufferSize
        \<lparr>benchWritten = 0, benchPos = 0, benchIter = 0, benchTrace = map Warn ws\<rparr> = Some (Inr s)"
      "benchWritten s = bs"
    using bench_loop_total [OF v(2) _ io(1,2) fit, of "\<lparr>benchWritten = 0, benchPos = 0,
        benchIter = 0, benchTrace = map Warn ws\<rparr>"] h v(1)
    by auto
  define b' where "b' = \<lparr>written = benchWritten s,
      writeSpeed = fdiv (of_int (benchWritten s))
         (seconds (time_sub (now e (Suc (benchIter s))) (now e 0))),
      originalPos = 0, finalPos = 0, printed = benchTrace s\<rparr>"
  have "benchmarkWriteSpeed e bufferSize = Some (Inr b')"
    using h io s(1)
    by (simp add: benchmarkWriteSpeed_def ws getDeviceSize_def Let_def bs_def [symmetric]
          file_seek_set_def b'_def)
  moreover have "written b' = bs" "finalPos b' = originalPos b'" by (simp_all add: b'_def s(2))
  ultimately show "\<exists>b'. benchmarkWriteSpeed e bufferSize = Some (Inr b') \<and>
            written b' = benchVolume (device_size e) bufferSize \<and>
            finalPos b' = originalPos b'"
    unfolding bs_def by (intro exI [of _ b'] conjI)
next
  assume "benchmarkWriteSpeed (e\<lparr>restore_fails := False\<rparr>) bufferSize = Some (Inr b'')"
  then show "benchmarkWriteSpeed (e\<lparr>restore_fails := True\<rparr>) bufferSize =
        Some (Inl RestorePositionFailed)"
    by (auto simp: benchmarkWriteSpeed_def open_device_def getDeviceSize_def bench_loop_restore
          file_seek_set_def Let_def split: sum.splits option.splits if_splits)
next
  show "RestorePositionFailed \<notin> {OpenFailed, ProbeFailed, RandFailed, WriteFailed, SeekFailed,
      BenchmarkSyncFailed, PanicSliceBounds, PanicIndex, PanicMakeLen}"
    by simp
qed

theorem benchmark_restores_offset_witness:
  "benchmarkWriteSpeed steady_env 4096 =
     Some (Inr \<lparr>written = 8192, writeSpeed = Finite (8192000 / 3), originalPos = 0,
          finalPos = 0, printed = [Wrote 4096, Wrote 4096]\<rparr>) \<and>
   (0::int) < 4096 \<and> (4096::int) < 2 ^ 62 \<and> 0 \<le> device_size steady_env \<and>
   device_size steady_env < 2 ^ 63 \<and> io_succeeds steady_env \<and>
   \<not> probe_fails steady_env \<and> \<not> getpos_fails steady_env \<and> \<not> restore_fails steady_env \<and>
   \<not> sync_fails steady_env \<and>
   allocAlignedBuffer (mem_limit steady_env) (heap_addr steady_env) (alignedBufferSize 4096) =
     Inr \<lparr>base = 824633720832, len = 4096, cap = 8192\<rparr> \<and>
   4096 \<le> cap \<lparr>base = 824633720832, len = 4096, cap = 8192\<rparr> \<and>
   device_size steady_env < 2 * 10737418240 \<and>
   benchVolume (device_size steady_env) 4096 = 8192 \<and>
   (\<exists>b'. benchmarkWriteSpeed steady_env 4096 = Some (Inr b') \<and>
         written b' = benchVolume (device_size steady_env) 4096 \<and>
         finalPos b' = originalPos b') \<and>
   benchmarkWriteSpeed (steady_env\<lparr>restore_fails := False\<rparr>) 4096 =
     Some (Inr \<lparr>written = 8192, writeSpeed = Finite (8192000 / 3), originalPos = 0,
          finalPos = 0, printed = [Wrote 4096, Wrote 4096]\<rparr>) \<and>
   benchmarkWriteSpeed (steady_env\<lparr>restore_fails := True\<rparr>) 4096 =
     Some (Inl RestorePositionFailed)"
proof -
  have e: "steady_env\<lparr>restore_fails := False\<rparr> = steady_env" by (simp add: steady_env_def)
  have r: "benchmarkWriteSpeed (steady_env\<lparr>restore_fails := False\<rparr>) 4096 =
     Some (Inr \<lparr>written = 8192, writeSpeed = Finite (8192000 / 3), originalPos = 0,
          finalPos = 0, printed = [Wrote 4096, Wrote 4096]\<rparr>)"
    unfolding e by (rule steady_benchmark)
  have d: "device_size steady_env = 20000" "\<not> sync_fails steady_env"
    "\<not> probe_fails steady_env" "\<not> getpos_fails steady_env" "\<not> restore_fails steady_env"
    by (simp_all add: steady_env_def)
  have v: "benchVolume (device_size steady_env) 4096 = 8192"
    by (simp add: d benchVolume_def machine_defs Let_def)
  have ex: "\<exists>b'. benchmarkWriteSpeed steady_env 4096 = Some (Inr b') \<and>
         written b' = benchVolume (device_size steady_env) 4096 \<and>
         finalPos b' = originalPos b'"
    using benchmark_restores_offset [THEN conjunct2, THEN conjunct1, THEN mp,
            of 4096 steady_env "\<lparr>base = 824633720832, len = 4096, cap = 8192\<rparr>"]
      steady_io steady_alloc_4096 d
    by simp
  show ?thesis
    using benchmark_restores_offset [THEN conjunct2, THEN conjunct2, THEN conjunct1, THEN mp, OF r]
      benchmark_restores_offset [THEN conjunct1, THEN mp, OF steady_benchmark]
      r ex v d steady_io steady_alloc_4096 steady_benchmark
    by simp
qed

end
